theory Spec2Isabelle
  imports Complex_Main "HOL-Library.Word" "HOL-Library.Sublist"
    "HOL-Library.List_Lexorder" "HOL-Library.Multiset"
begin

section \<open>JavaScript strings\<close>

text \<open>
  A JavaScript string is a sequence of UTF-16 code units.  None of the regular
  expressions of \<^verbatim>\<open>taskParser.ts\<close> carries the \<^verbatim>\<open>u\<close> flag, so matching,
  character classes and \<^verbatim>\<open>.\<close> all work on single code units: a glyph outside the
  Basic Multilingual Plane is two units (a surrogate pair), also inside a character class.
  String comparison (\<^verbatim>\<open>===\<close>, \<^verbatim>\<open><\<close>, the default \<^verbatim>\<open>sort\<close>) is by code units,
  which is the lexicographic order on lists of words.
\<close>

type_synonym code_unit = "16 word"
type_synonym jsstring = "code_unit list"

definition lit :: "string \<Rightarrow> jsstring" where
  "lit s = map of_char s"

text \<open>The class \<^verbatim>\<open>\s\<close>, which is also the set that \<^verbatim>\<open>trim\<close> strips
  (WhiteSpace and LineTerminator of ECMAScript).\<close>

definition is_space :: "code_unit \<Rightarrow> bool" where
  "is_space c \<longleftrightarrow>
     c \<in> set [0x09, 0x0A, 0x0B, 0x0C, 0x0D, 0x20, 0xA0, 0x1680,
               0x2028, 0x2029, 0x202F, 0x205F, 0x3000, 0xFEFF]
     \<or> (0x2000 \<le> c \<and> c \<le> 0x200A)"

text \<open>The units that \<^verbatim>\<open>.\<close> does not match.\<close>

definition is_line_terminator :: "code_unit \<Rightarrow> bool" where
  "is_line_terminator c \<longleftrightarrow> c \<in> set [0x0A, 0x0D, 0x2028, 0x2029]"

text \<open>The class \<^verbatim>\<open>\d\<close>.\<close>

definition is_digit :: "code_unit \<Rightarrow> bool" where
  "is_digit c \<longleftrightarrow> 0x30 \<le> c \<and> c \<le> 0x39"

definition trim :: "jsstring \<Rightarrow> jsstring" where
  "trim s = rev (dropWhile is_space (rev (dropWhile is_space s)))"

text \<open>\<^verbatim>\<open>s.includes(sub)\<close>\<close>

fun includes_str :: "jsstring \<Rightarrow> jsstring \<Rightarrow> bool" where
  "includes_str [] sub = (sub = [])"
| "includes_str (c # cs) sub = (prefix sub (c # cs) \<or> includes_str cs sub)"

text \<open>\<^verbatim>\<open>vs.join(sep)\<close>\<close>

fun join :: "jsstring list \<Rightarrow> jsstring \<Rightarrow> jsstring" where
  "join [] sep = []"
| "join [v] sep = v"
| "join (v # w # vs) sep = v @ sep @ join (w # vs) sep"

text \<open>\<^verbatim>\<open>String(n)\<close> for a non-negative integer: its decimal digits.\<close>

fun String_nat :: "nat \<Rightarrow> jsstring" where
  "String_nat n =
     (if n < 10 then [0x30 + of_nat n]
      else String_nat (n div 10) @ [0x30 + of_nat (n mod 10)])"

declare String_nat.simps [simp del]

text \<open>Reading a decimal numeral as \<^verbatim>\<open>Number(s)\<close> does (absent on anything but a
  non-empty string of digits).  The source does not call it; it serves to state what the
  counting results are as integers.\<close>

fun Number_digits :: "nat \<Rightarrow> jsstring \<Rightarrow> nat option" where
  "Number_digits acc [] = Some acc"
| "Number_digits acc (c # cs) =
     (if is_digit c then Number_digits (10 * acc + unat (c - 0x30)) cs else None)"

definition Number_str :: "jsstring \<Rightarrow> nat option" where
  "Number_str s = (if s = [] then None else Number_digits 0 s)"

text \<open>\<^verbatim>\<open>content.split("\n")\<close>\<close>

fun split_lines :: "jsstring \<Rightarrow> jsstring list" where
  "split_lines [] = [[]]"
| "split_lines (c # cs) =
     (if c = 0x0A then [] # split_lines cs
      else (case split_lines cs of [] \<Rightarrow> [[c]] | l # ls \<Rightarrow> (c # l) # ls))"

section \<open>Double-precision arithmetic of \<^verbatim>\<open>computePercentageDone\<close>\<close>

text \<open>
  \<^verbatim>\<open>Math.round((doneCount / tasks.length) * 100)\<close> divides and multiplies in IEEE 754
  binary64, each operation rounded to the nearest representable value, ties to even;
  \<^verbatim>\<open>Math.round\<close> then takes the nearest integer, ties upwards.  The operands here
  are positive and far from the subnormal and overflow ranges, so a value is rounded to
  53 significant bits.
\<close>

function bit_length :: "int \<Rightarrow> int" where
  "bit_length a = (if a \<le> 0 then 0 else 1 + bit_length (a div 2))"
  by pat_completeness auto
termination
  by (relation "measure nat") auto

declare bit_length.simps [simp del]

text \<open>The exponent \<open>e\<close> with \<open>2 ^ e \<le> x < 2 ^ (e + 1)\<close>, for positive \<open>x\<close>.\<close>

definition ilog2 :: "rat \<Rightarrow> int" where
  "ilog2 x =
     (let (a, b) = quotient_of x;
          k = bit_length a - bit_length b
      in if 2 powi k \<le> x then k else k - 1)"

definition round_half_even :: "rat \<Rightarrow> int" where
  "round_half_even m =
     (let f = \<lfloor>m\<rfloor>; r = m - of_int f
      in if r < 1 / 2 then f else if 1 / 2 < r then f + 1
         else if even f then f else f + 1)"

definition fl :: "rat \<Rightarrow> rat" where
  "fl x =
     (if x \<le> 0 then 0
      else let u = 2 powi (ilog2 x - 52) in of_int (round_half_even (x / u)) * u)"

definition Math_round :: "rat \<Rightarrow> int" where
  "Math_round x = \<lfloor>x + 1 / 2\<rfloor>"

section \<open>Data model (\<^verbatim>\<open>types.ts\<close>)\<close>

record ParsedTask =
  line :: jsstring
  lineNumber :: nat
  isDone :: bool
  description :: jsstring
  dueDate :: "jsstring option"
  scheduledDate :: "jsstring option"
  startDate :: "jsstring option"
  createdDate :: "jsstring option"
  doneDate :: "jsstring option"
  recurrence :: "jsstring option"
  priority :: "jsstring option"
  status :: jsstring

text \<open>Property, operator and operation names are strings at run time: the TypeScript
  unions are erased, and every \<^verbatim>\<open>switch\<close> has a \<^verbatim>\<open>default\<close> branch.\<close>

record Condition =
  cond_id :: jsstring
  property :: jsstring
  operator :: jsstring
  cond_value :: jsstring

record DirectMapping =
  mapping_id :: jsstring
  taskProperty :: jsstring
  frontmatterKey :: jsstring
  overwriteExisting :: bool
  enabled :: bool

record OperationMapping = DirectMapping +
  operation :: jsstring
  conditions :: "Condition list"
  conditionLogic :: jsstring

record TaskPropertyPluginSettings =
  directMappings :: "DirectMapping list"
  operationMappings :: "OperationMapping list"
  excludedFolders :: "jsstring list"
  processOnModify :: bool
  debounceDelay :: nat

text \<open>The element type of the \<^verbatim>\<open>updates\<close> array of \<^verbatim>\<open>processor.ts\<close>.\<close>

record Update =
  key :: jsstring
  update_value :: jsstring
  update_overwriteExisting :: bool

section \<open>Property accessor (\<^verbatim>\<open>getTaskPropertyValue\<close>)\<close>

definition getTaskPropertyValue :: "ParsedTask \<Rightarrow> jsstring \<Rightarrow> jsstring option" where
  "getTaskPropertyValue task pname =
     (if pname = lit ''due_date'' then dueDate task
      else if pname = lit ''scheduled_date'' then scheduledDate task
      else if pname = lit ''start_date'' then startDate task
      else if pname = lit ''created_date'' then createdDate task
      else if pname = lit ''done_date'' then doneDate task
      else if pname = lit ''recurrence'' then recurrence task
      else if pname = lit ''priority'' then priority task
      else if pname = lit ''status'' then Some (status task)
      else if pname = lit ''description'' then Some (description task)
      else None)"

text \<open>The vocabularies of \<^verbatim>\<open>types.ts\<close>.\<close>

definition TASK_PROPERTIES :: "jsstring list" where
  "TASK_PROPERTIES = map lit [''due_date'', ''scheduled_date'', ''start_date'',
     ''created_date'', ''done_date'', ''recurrence'', ''priority'', ''status'',
     ''description'']"

definition CONDITION_OPERATORS :: "jsstring list" where
  "CONDITION_OPERATORS = map lit [''equals'', ''not_equals'', ''contains'',
     ''not_contains'', ''is_empty'', ''is_not_empty'', ''greater_than'', ''less_than'',
     ''greater_or_equal'', ''less_or_equal'']"

definition OPERATION_TYPES :: "jsstring list" where
  "OPERATION_TYPES = map lit [''min'', ''max'', ''count'', ''count_all'', ''count_done'',
     ''count_open'', ''percentage_done'', ''list'', ''first'', ''last'']"

section \<open>Condition evaluator (\<^verbatim>\<open>operations.ts\<close>)\<close>

definition evaluateCondition :: "ParsedTask \<Rightarrow> Condition \<Rightarrow> bool" where
  "evaluateCondition task condition =
     (let taskValue = getTaskPropertyValue task (property condition);
          condValue = cond_value condition;
          opr = operator condition
      in if opr = lit ''equals'' then taskValue = Some condValue
         else if opr = lit ''not_equals'' then taskValue \<noteq> Some condValue
         else if opr = lit ''contains'' then
           (case taskValue of None \<Rightarrow> False | Some v \<Rightarrow> includes_str v condValue)
         else if opr = lit ''not_contains'' then
           (case taskValue of None \<Rightarrow> True | Some v \<Rightarrow> \<not> includes_str v condValue)
         else if opr = lit ''is_empty'' then
           (case taskValue of None \<Rightarrow> True | Some v \<Rightarrow> v = [])
         else if opr = lit ''is_not_empty'' then
           (case taskValue of None \<Rightarrow> False | Some v \<Rightarrow> v \<noteq> [])
         else if opr = lit ''greater_than'' then
           (case taskValue of None \<Rightarrow> False | Some v \<Rightarrow> v > condValue)
         else if opr = lit ''less_than'' then
           (case taskValue of None \<Rightarrow> False | Some v \<Rightarrow> v < condValue)
         else if opr = lit ''greater_or_equal'' then
           (case taskValue of None \<Rightarrow> False | Some v \<Rightarrow> v \<ge> condValue)
         else if opr = lit ''less_or_equal'' then
           (case taskValue of None \<Rightarrow> False | Some v \<Rightarrow> v \<le> condValue)
         else True)"

definition filterTasksByConditions ::
    "ParsedTask list \<Rightarrow> Condition list \<Rightarrow> jsstring \<Rightarrow> ParsedTask list" where
  "filterTasksByConditions tasks conds logic =
     (if conds = [] then tasks
      else filter (\<lambda>task.
             if logic = lit ''AND'' then list_all (\<lambda>cond. evaluateCondition task cond) conds
             else list_ex (\<lambda>cond. evaluateCondition task cond) conds) tasks)"

section \<open>Aggregation engine (\<^verbatim>\<open>operations.ts\<close>)\<close>

fun getPropertyValues :: "ParsedTask list \<Rightarrow> jsstring \<Rightarrow> jsstring list" where
  "getPropertyValues [] pname = []"
| "getPropertyValues (task # tasks) pname =
     (case getTaskPropertyValue task pname of
        None \<Rightarrow> getPropertyValues tasks pname
      | Some v \<Rightarrow> if v \<noteq> [] then v # getPropertyValues tasks pname
                  else getPropertyValues tasks pname)"

definition computeMin :: "ParsedTask list \<Rightarrow> jsstring \<Rightarrow> jsstring option" where
  "computeMin tasks pname =
     (let vals = getPropertyValues tasks pname
      in if vals = [] then None else Some (hd (sort vals)))"

definition computeMax :: "ParsedTask list \<Rightarrow> jsstring \<Rightarrow> jsstring option" where
  "computeMax tasks pname =
     (let vals = getPropertyValues tasks pname
      in if vals = [] then None else Some (last (sort vals)))"

definition computeCount :: "ParsedTask list \<Rightarrow> jsstring \<Rightarrow> jsstring" where
  "computeCount tasks pname = String_nat (length (getPropertyValues tasks pname))"

definition computePercentageDone :: "ParsedTask list \<Rightarrow> jsstring" where
  "computePercentageDone tasks =
     (if tasks = [] then lit ''0''
      else let doneCount = length (filter isDone tasks);
               percentage = Math_round
                 (fl (fl (of_nat doneCount / of_nat (length tasks)) * 100))
           in String_nat (nat percentage))"

definition computeList :: "ParsedTask list \<Rightarrow> jsstring \<Rightarrow> jsstring option" where
  "computeList tasks pname =
     (let vals = getPropertyValues tasks pname
      in if vals = [] then None else Some (join vals (lit '', '')))"

fun computeFirst :: "ParsedTask list \<Rightarrow> jsstring \<Rightarrow> jsstring option" where
  "computeFirst [] pname = None"
| "computeFirst (task # tasks) pname =
     (case getTaskPropertyValue task pname of
        None \<Rightarrow> computeFirst tasks pname
      | Some v \<Rightarrow> if v \<noteq> [] then Some v else computeFirst tasks pname)"

text \<open>The loop of \<^verbatim>\<open>computeLast\<close> runs \<open>i\<close> from \<open>length - 1\<close> down to \<open>0\<close>; the
  counter here is \<open>i + 1\<close>.\<close>

fun computeLast_from :: "ParsedTask list \<Rightarrow> jsstring \<Rightarrow> nat \<Rightarrow> jsstring option" where
  "computeLast_from tasks pname 0 = None"
| "computeLast_from tasks pname (Suc i) =
     (case getTaskPropertyValue (tasks ! i) pname of
        None \<Rightarrow> computeLast_from tasks pname i
      | Some v \<Rightarrow> if v \<noteq> [] then Some v else computeLast_from tasks pname i)"

definition computeLast :: "ParsedTask list \<Rightarrow> jsstring \<Rightarrow> jsstring option" where
  "computeLast tasks pname = computeLast_from tasks pname (length tasks)"

definition executeOperation ::
    "ParsedTask list \<Rightarrow> jsstring \<Rightarrow> jsstring \<Rightarrow> jsstring option" where
  "executeOperation tasks pname opn =
     (if tasks = [] then None
      else if opn = lit ''min'' then computeMin tasks pname
      else if opn = lit ''max'' then computeMax tasks pname
      else if opn = lit ''count'' then Some (computeCount tasks pname)
      else if opn = lit ''count_all'' then Some (String_nat (length tasks))
      else if opn = lit ''count_done'' then
        Some (String_nat (length (filter (\<lambda>t. isDone t) tasks)))
      else if opn = lit ''count_open'' then
        Some (String_nat (length (filter (\<lambda>t. \<not> isDone t) tasks)))
      else if opn = lit ''percentage_done'' then Some (computePercentageDone tasks)
      else if opn = lit ''list'' then computeList tasks pname
      else if opn = lit ''first'' then computeFirst tasks pname
      else if opn = lit ''last'' then computeLast tasks pname
      else None)"

section \<open>Marker parser (\<^verbatim>\<open>taskParser.ts\<close>)\<close>

subsection \<open>Glyphs\<close>

text \<open>The marker glyphs as UTF-16: a glyph above U+FFFF is a surrogate pair.\<close>

definition GLYPH_DUE :: jsstring where "GLYPH_DUE = [0xD83D, 0xDCC5]"
definition GLYPH_SCHEDULED :: jsstring where "GLYPH_SCHEDULED = [0x23F3]"
definition GLYPH_START :: jsstring where "GLYPH_START = [0xD83D, 0xDEEB]"
definition GLYPH_CREATED :: jsstring where "GLYPH_CREATED = [0x2795]"
definition GLYPH_DONE :: jsstring where "GLYPH_DONE = [0x2705]"
definition GLYPH_RECURRENCE :: jsstring where "GLYPH_RECURRENCE = [0xD83D, 0xDD01]"
definition GLYPH_HIGHEST :: jsstring where "GLYPH_HIGHEST = [0xD83D, 0xDD3A]"
definition GLYPH_HIGH :: jsstring where "GLYPH_HIGH = [0x23EB]"
definition GLYPH_MEDIUM :: jsstring where "GLYPH_MEDIUM = [0xD83D, 0xDD3C]"
definition GLYPH_LOW :: jsstring where "GLYPH_LOW = [0xD83D, 0xDD3D]"
definition GLYPH_LOWEST :: jsstring where "GLYPH_LOWEST = [0x23EC]"
definition GLYPH_ID :: jsstring where "GLYPH_ID = [0xD83C, 0xDD94]"

subsection \<open>The regular expressions\<close>

text \<open>
  The marker patterns have three shapes, \<open>G\<close> a glyph:
  \<^item> \<open>Date_re G\<close> is \<^verbatim>\<open>/G\s*(\d{4}-\d{2}-\d{2})/\<close>;
  \<^item> \<open>Rec_re G C\<close> is \<^verbatim>\<open>/G\s*([^C]*)/\<close>, \<open>C\<close> the code units written between
    the brackets;
  \<^item> \<open>Glyph_re G\<close> is \<^verbatim>\<open>/G/\<close>.

  \<open>match_at\<close> matches a pattern at the start of the text and gives the length of the
  match and group 1.  The quantifiers are greedy, and what follows \<^verbatim>\<open>\s*\<close> never
  starts with white space (a digit; a group that cannot fail), so giving back white
  space never helps and there is one way to match.
  \<open>exec_re\<close> is the search of \<^verbatim>\<open>String.prototype.match\<close>, \<^verbatim>\<open>test\<close> and
  \<^verbatim>\<open>replace\<close> for a pattern without the \<^verbatim>\<open>g\<close> flag: the leftmost position
  where the pattern matches, with the index and the length of the match.
\<close>

datatype regex = Date_re jsstring | Rec_re jsstring "code_unit list" | Glyph_re jsstring

definition date_shape :: "jsstring \<Rightarrow> bool" where
  "date_shape s \<longleftrightarrow>
     10 \<le> length s \<and> list_all is_digit (take 4 s) \<and> s ! 4 = 0x2D
     \<and> list_all is_digit (take 2 (drop 5 s)) \<and> s ! 7 = 0x2D
     \<and> list_all is_digit (take 2 (drop 8 s))"

fun match_at :: "regex \<Rightarrow> jsstring \<Rightarrow> (nat \<times> jsstring option) option" where
  "match_at (Date_re g) s =
     (if prefix g s then
        let r = drop (length g) s; d = dropWhile is_space r
        in if date_shape d
           then Some (length g + length (takeWhile is_space r) + 10, Some (take 10 d))
           else None
      else None)"
| "match_at (Rec_re g stop) s =
     (if prefix g s then
        let r = drop (length g) s; d = dropWhile is_space r;
            c = takeWhile (\<lambda>u. u \<notin> set stop) d
        in Some (length g + length (takeWhile is_space r) + length c, Some c)
      else None)"
| "match_at (Glyph_re g) s = (if prefix g s then Some (length g, None) else None)"

fun exec_re :: "regex \<Rightarrow> jsstring \<Rightarrow> (nat \<times> nat \<times> jsstring option) option" where
  "exec_re re [] = map_option (\<lambda>(n, grp). (0, n, grp)) (match_at re [])"
| "exec_re re (c # cs) =
     (case match_at re (c # cs) of
        Some (n, grp) \<Rightarrow> Some (0, n, grp)
      | None \<Rightarrow> map_option (\<lambda>(i, n, grp). (Suc i, n, grp)) (exec_re re cs))"

text \<open>\<^verbatim>\<open>regex.test(text)\<close>\<close>

definition test_re :: "regex \<Rightarrow> jsstring \<Rightarrow> bool" where
  "test_re re text \<longleftrightarrow> exec_re re text \<noteq> None"

text \<open>\<^verbatim>\<open>text.replace(regex, "")\<close>: the first match is cut out.\<close>

definition replace_re :: "jsstring \<Rightarrow> regex \<Rightarrow> jsstring" where
  "replace_re text re =
     (case exec_re re text of
        None \<Rightarrow> text
      | Some (i, n, grp) \<Rightarrow> take i text @ drop (i + n) text)"

text \<open>\<^verbatim>\<open>text.replace(/\s+/g, " ")\<close>: every maximal run of white space becomes one
  space.\<close>

function replace_spaces :: "jsstring \<Rightarrow> jsstring" where
  "replace_spaces [] = []"
| "replace_spaces (c # cs) =
     (if is_space c then 0x20 # replace_spaces (dropWhile is_space cs)
      else c # replace_spaces cs)"
  by pat_completeness auto
termination
  by (relation "measure length") (auto simp: length_dropWhile_le less_Suc_eq_le)

definition DUE_DATE_REGEX :: regex where "DUE_DATE_REGEX = Date_re GLYPH_DUE"
definition SCHEDULED_DATE_REGEX :: regex where
  "SCHEDULED_DATE_REGEX = Date_re GLYPH_SCHEDULED"
definition START_DATE_REGEX :: regex where "START_DATE_REGEX = Date_re GLYPH_START"
definition CREATED_DATE_REGEX :: regex where "CREATED_DATE_REGEX = Date_re GLYPH_CREATED"
definition DONE_DATE_REGEX :: regex where "DONE_DATE_REGEX = Date_re GLYPH_DONE"

text \<open>The units between the brackets of \<^verbatim>\<open>RECURRENCE_REGEX\<close>, in the order written.\<close>

definition RECURRENCE_CLASS :: "code_unit list" where
  "RECURRENCE_CLASS = GLYPH_DUE @ GLYPH_SCHEDULED @ GLYPH_START @ GLYPH_CREATED
     @ GLYPH_DONE @ GLYPH_HIGH @ GLYPH_MEDIUM @ GLYPH_LOW @ GLYPH_LOWEST @ GLYPH_ID"

definition RECURRENCE_REGEX :: regex where
  "RECURRENCE_REGEX = Rec_re GLYPH_RECURRENCE RECURRENCE_CLASS"

definition PRIORITY_HIGHEST_REGEX :: regex where
  "PRIORITY_HIGHEST_REGEX = Glyph_re GLYPH_HIGHEST"
definition PRIORITY_HIGH_REGEX :: regex where "PRIORITY_HIGH_REGEX = Glyph_re GLYPH_HIGH"
definition PRIORITY_MEDIUM_REGEX :: regex where
  "PRIORITY_MEDIUM_REGEX = Glyph_re GLYPH_MEDIUM"
definition PRIORITY_LOW_REGEX :: regex where "PRIORITY_LOW_REGEX = Glyph_re GLYPH_LOW"
definition PRIORITY_LOWEST_REGEX :: regex where
  "PRIORITY_LOWEST_REGEX = Glyph_re GLYPH_LOWEST"

text \<open>
  \<^verbatim>\<open>TASK_CHECKBOX_REGEX = /^(\s*[-*]\s*\[(.)\])\s*(.*)/\<close>, giving groups 2 and 3.
  Each \<^verbatim>\<open>\s*\<close> is followed by something that is no white space or that cannot
  fail, so again there is one way to match; \<^verbatim>\<open>.\<close> is any unit but a line
  terminator.
\<close>

definition match_checkbox :: "jsstring \<Rightarrow> (jsstring \<times> jsstring) option" where
  "match_checkbox raw =
     (case dropWhile is_space raw of
        [] \<Rightarrow> None
      | b # r1 \<Rightarrow>
          if b = 0x2D \<or> b = 0x2A then
            (case dropWhile is_space r1 of
               ob # st # cb # r2 \<Rightarrow>
                 if ob = 0x5B \<and> \<not> is_line_terminator st \<and> cb = 0x5D
                 then Some ([st],
                        takeWhile (\<lambda>u. \<not> is_line_terminator u) (dropWhile is_space r2))
                 else None
             | _ \<Rightarrow> None)
          else None)"

subsection \<open>The parser\<close>

text \<open>\<^verbatim>\<open>match ? match[1] : null\<close>\<close>

definition extractMatch :: "jsstring \<Rightarrow> regex \<Rightarrow> jsstring option" where
  "extractMatch text re =
     (case exec_re re text of None \<Rightarrow> None | Some (i, n, grp) \<Rightarrow> grp)"

definition extractPriority :: "jsstring \<Rightarrow> jsstring option" where
  "extractPriority text =
     (if test_re PRIORITY_HIGHEST_REGEX text then Some (lit ''highest'')
      else if test_re PRIORITY_HIGH_REGEX text then Some (lit ''high'')
      else if test_re PRIORITY_MEDIUM_REGEX text then Some (lit ''medium'')
      else if test_re PRIORITY_LOW_REGEX text then Some (lit ''low'')
      else if test_re PRIORITY_LOWEST_REGEX text then Some (lit ''lowest'')
      else None)"

text \<open>The eleven \<^verbatim>\<open>replace\<close> calls of \<^verbatim>\<open>extractDescription\<close> on the marker patterns,
  innermost first; the call on white space and \<^verbatim>\<open>trim\<close> follow in
  \<open>extractDescription\<close>.\<close>

definition strip_markers :: "jsstring \<Rightarrow> jsstring" where
  "strip_markers taskContent =
     replace_re (replace_re (replace_re (replace_re (replace_re (replace_re
       (replace_re (replace_re (replace_re (replace_re (replace_re taskContent
          DUE_DATE_REGEX) SCHEDULED_DATE_REGEX) START_DATE_REGEX) CREATED_DATE_REGEX)
          DONE_DATE_REGEX) RECURRENCE_REGEX) PRIORITY_HIGHEST_REGEX) PRIORITY_HIGH_REGEX)
          PRIORITY_MEDIUM_REGEX) PRIORITY_LOW_REGEX) PRIORITY_LOWEST_REGEX"

definition extractDescription :: "jsstring \<Rightarrow> jsstring" where
  "extractDescription taskContent = trim (replace_spaces (strip_markers taskContent))"

text \<open>\<^verbatim>\<open>match[3].trim()\<close> of \<^verbatim>\<open>parseTaskLine\<close>, absent when the line is no task.\<close>

definition taskContent_of :: "jsstring \<Rightarrow> jsstring option" where
  "taskContent_of raw = map_option (\<lambda>(statusChar, rest). trim rest) (match_checkbox raw)"

definition parseTaskLine :: "jsstring \<Rightarrow> nat \<Rightarrow> ParsedTask option" where
  "parseTaskLine raw lineNo =
     (case match_checkbox raw of
        None \<Rightarrow> None
      | Some (statusChar, rest) \<Rightarrow>
          let taskContent = trim rest;
              rec = extractMatch taskContent RECURRENCE_REGEX
          in Some \<lparr> line = raw, lineNumber = lineNo,
                 isDone = (statusChar = lit ''x'' \<or> statusChar = lit ''X''),
                 description = extractDescription taskContent,
                 dueDate = extractMatch taskContent DUE_DATE_REGEX,
                 scheduledDate = extractMatch taskContent SCHEDULED_DATE_REGEX,
                 startDate = extractMatch taskContent START_DATE_REGEX,
                 createdDate = extractMatch taskContent CREATED_DATE_REGEX,
                 doneDate = extractMatch taskContent DONE_DATE_REGEX,
                 recurrence = (case rec of None \<Rightarrow> None
                                | Some r \<Rightarrow> if r \<noteq> [] then Some (trim r) else None),
                 priority = extractPriority taskContent,
                 status = statusChar \<rparr>)"

text \<open>The loop of \<^verbatim>\<open>parseTasks\<close> over the lines, \<open>i\<close> the index of the next line.\<close>

fun parseTasks_from :: "jsstring list \<Rightarrow> nat \<Rightarrow> ParsedTask list" where
  "parseTasks_from [] i = []"
| "parseTasks_from (raw # raws) i =
     (case parseTaskLine raw i of
        None \<Rightarrow> parseTasks_from raws (Suc i)
      | Some task \<Rightarrow> task # parseTasks_from raws (Suc i))"

definition parseTasks :: "jsstring \<Rightarrow> ParsedTask list" where
  "parseTasks content = parseTasks_from (split_lines content) 0"

section \<open>Mapping resolver (\<^verbatim>\<open>processor.ts\<close>)\<close>

fun processDirectMapping :: "DirectMapping \<Rightarrow> ParsedTask list \<Rightarrow> Update list" where
  "processDirectMapping mapping [] = []"
| "processDirectMapping mapping (task # tasks) =
     (case getTaskPropertyValue task (taskProperty mapping) of
        None \<Rightarrow> processDirectMapping mapping tasks
      | Some v \<Rightarrow>
          if v \<noteq> [] then
            [\<lparr> key = frontmatterKey mapping, update_value = v,
               update_overwriteExisting = overwriteExisting mapping \<rparr>]
          else processDirectMapping mapping tasks)"

text \<open>One round of the loop over the operation mappings;
  \<^verbatim>\<open>mapping.conditionLogic || "AND"\<close> replaces an empty string.\<close>

definition processOperationMapping :: "OperationMapping \<Rightarrow> ParsedTask list \<Rightarrow> Update list" where
  "processOperationMapping mapping tasks =
     (let filteredTasks = filterTasksByConditions tasks (conditions mapping)
            (if conditionLogic mapping = [] then lit ''AND'' else conditionLogic mapping)
      in case executeOperation filteredTasks (taskProperty mapping) (operation mapping) of
           None \<Rightarrow> []
         | Some result \<Rightarrow>
             [\<lparr> key = frontmatterKey mapping, update_value = result,
                update_overwriteExisting = overwriteExisting mapping \<rparr>])"

definition hasCountOps :: "TaskPropertyPluginSettings \<Rightarrow> bool" where
  "hasCountOps settings \<longleftrightarrow>
     list_ex (\<lambda>m. enabled m \<and>
         (operation m = lit ''count_all'' \<or> operation m = lit ''count_done''
          \<or> operation m = lit ''count_open'' \<or> operation m = lit ''percentage_done''))
       (operationMappings settings)"

text \<open>The \<^verbatim>\<open>updates\<close> array that \<^verbatim>\<open>processFile\<close> builds from the parsed tasks and
  hands to the frontmatter writer (empty also when it returns early).\<close>

definition processFile_updates ::
    "TaskPropertyPluginSettings \<Rightarrow> ParsedTask list \<Rightarrow> Update list" where
  "processFile_updates settings tasks =
     (if tasks = [] \<and> \<not> hasCountOps settings then []
      else concat (map (\<lambda>m. processDirectMapping m tasks)
                    (filter enabled (directMappings settings)))
         @ concat (map (\<lambda>m. processOperationMapping m tasks)
                    (filter enabled (operationMappings settings))))"

section \<open>Example inputs\<close>

definition task_open :: ParsedTask where
  "task_open = \<lparr> line = lit ''- [ ] write'', lineNumber = 0, isDone = False,
     description = lit ''write'', dueDate = None, scheduledDate = None, startDate = None,
     createdDate = None, doneDate = None, recurrence = None, priority = None,
     status = lit '' '' \<rparr>"

definition task_done :: ParsedTask where
  "task_done = \<lparr> line = lit ''- [x] read'', lineNumber = 1, isDone = True,
     description = lit ''read'', dueDate = None, scheduledDate = None, startDate = None,
     createdDate = None, doneDate = None, recurrence = None, priority = None,
     status = lit ''x'' \<rparr>"

definition bogus_condition :: Condition where
  "bogus_condition = \<lparr> cond_id = lit ''c1'', property = lit ''status'',
     operator = lit ''matches'', cond_value = lit ''x'' \<rparr>"

definition count_all_mapping :: OperationMapping where
  "count_all_mapping = \<lparr> mapping_id = lit ''m1'', taskProperty = lit ''status'',
     frontmatterKey = lit ''total'', overwriteExisting = True, enabled = True,
     operation = lit ''count_all'', conditions = [], conditionLogic = lit ''AND'' \<rparr>"

definition count_all_bogus_mapping :: OperationMapping where
  "count_all_bogus_mapping = count_all_mapping \<lparr> conditions := [bogus_condition] \<rparr>"

definition count_settings :: TaskPropertyPluginSettings where
  "count_settings = \<lparr> directMappings = [], operationMappings = [count_all_mapping],
     excludedFolders = [], processOnModify = True, debounceDelay = 1000 \<rparr>"

definition priority_mapping :: DirectMapping where
  "priority_mapping = \<lparr> mapping_id = lit ''d1'', taskProperty = lit ''priority'',
     frontmatterKey = lit ''prio'', overwriteExisting = False, enabled = True \<rparr>"

definition task_high :: ParsedTask where
  "task_high = task_open \<lparr> line := lit ''- [ ] '' @ GLYPH_HIGH, lineNumber := 1,
     description := [], priority := Some (lit ''high'') \<rparr>"

definition task_low :: ParsedTask where
  "task_low = task_open \<lparr> line := lit ''- [ ] '' @ GLYPH_LOW, lineNumber := 2,
     description := [], priority := Some (lit ''low'') \<rparr>"

text \<open>A line whose leftmost priority glyph is not the one of highest precedence.\<close>

definition priority_line :: jsstring where
  "priority_line = lit ''- [ ] '' @ GLYPH_LOW @ lit '' pay '' @ GLYPH_HIGH @ lit '' rent '' @ GLYPH_HIGHEST"

section \<open>The capture of the recurrence marker, in the words of the specification\<close>

text \<open>
  ``Capturing all text up to (but not including) the next occurrence of any other
  recognized marker glyph or end of content; the capture is trimmed; empty-after-trim is
  normalized to absent''.  The recognized markers other than the recurrence marker are
  the five date markers and the five priority glyphs.
\<close>

definition OTHER_MARKER_GLYPHS :: "jsstring list" where
  "OTHER_MARKER_GLYPHS = [GLYPH_DUE, GLYPH_SCHEDULED, GLYPH_START, GLYPH_CREATED, GLYPH_DONE,
     GLYPH_HIGHEST, GLYPH_HIGH, GLYPH_MEDIUM, GLYPH_LOW, GLYPH_LOWEST]"

fun spec_text_to_marker :: "jsstring \<Rightarrow> jsstring" where
  "spec_text_to_marker [] = []"
| "spec_text_to_marker (c # cs) =
     (if list_ex (\<lambda>g. prefix g (c # cs)) OTHER_MARKER_GLYPHS then []
      else c # spec_text_to_marker cs)"

fun spec_after_glyph :: "jsstring \<Rightarrow> jsstring \<Rightarrow> jsstring option" where
  "spec_after_glyph g [] = None"
| "spec_after_glyph g (c # cs) =
     (if prefix g (c # cs) then Some (drop (length g) (c # cs)) else spec_after_glyph g cs)"

definition spec_recurrence :: "jsstring \<Rightarrow> jsstring option" where
  "spec_recurrence content =
     (case spec_after_glyph GLYPH_RECURRENCE content of
        None \<Rightarrow> None
      | Some r \<Rightarrow>
          let cap = trim (spec_text_to_marker r) in if cap = [] then None else Some cap)"

text \<open>Two lines with a recurrence marker; in the first the recurrence text is followed
  by \<open>GLYPH_ID\<close>, which is no marker of this program.\<close>

definition recurrence_id_line :: jsstring where
  "recurrence_id_line = lit ''- [ ] '' @ GLYPH_RECURRENCE @ lit '' every week '' @ GLYPH_ID @ lit '' abc''"

definition recurrence_due_line :: jsstring where
  "recurrence_due_line = lit ''- [ ] '' @ GLYPH_RECURRENCE @ lit '' every week '' @ GLYPH_DUE @ lit '' 2025-05-01''"

text \<open>The glyphs that end the capture: the eleven recognized markers (also a second
  recurrence marker and \<open>GLYPH_HIGHEST\<close>, whose first code unit is in the class of
  \<^verbatim>\<open>RECURRENCE_REGEX\<close>) and \<open>GLYPH_ID\<close>.\<close>

definition RECURRENCE_STOP_GLYPHS :: "jsstring list" where
  "RECURRENCE_STOP_GLYPHS = [GLYPH_DUE, GLYPH_SCHEDULED, GLYPH_START, GLYPH_CREATED,
     GLYPH_DONE, GLYPH_RECURRENCE, GLYPH_HIGHEST, GLYPH_HIGH, GLYPH_MEDIUM, GLYPH_LOW,
     GLYPH_LOWEST, GLYPH_ID]"

text \<open>A recurrence marker followed by white space only, one whose text ends at
  \<open>GLYPH_HIGHEST\<close>, and one followed by a glyph that is no marker but shares its first
  code unit with marker glyphs.\<close>

definition recurrence_highest_line :: jsstring where
  "recurrence_highest_line = lit ''- [ ] '' @ GLYPH_RECURRENCE @ lit '' every week '' @ GLYPH_HIGHEST"

definition recurrence_blank_line :: jsstring where
  "recurrence_blank_line = lit ''- [ ] '' @ GLYPH_RECURRENCE @ lit ''   '' @ GLYPH_DUE @ lit '' 2025-05-01''"

definition recurrence_emoji_line :: jsstring where
  "recurrence_emoji_line = lit ''- [ ] '' @ GLYPH_RECURRENCE @ lit '' every '' @ [0xD83D, 0xDE00] @ lit '' week''"

section \<open>Removing markers, in the words of the specification\<close>

text \<open>
  ``Every occurrence of each pattern removed'': the text is scanned from the left, every
  match is dropped and the scan goes on behind it (after a match of no unit, one unit
  further), as \<^verbatim>\<open>replace\<close> does for a pattern with the \<^verbatim>\<open>g\<close> flag.
\<close>

function spec_remove_all :: "regex \<Rightarrow> jsstring \<Rightarrow> jsstring" where
  "spec_remove_all re [] = []"
| "spec_remove_all re (c # cs) =
     (case match_at re (c # cs) of
        None \<Rightarrow> c # spec_remove_all re cs
      | Some (n, grp) \<Rightarrow>
          if n = 0 then c # spec_remove_all re cs
          else spec_remove_all re (drop n (c # cs)))"
  by pat_completeness auto
termination
  by (relation "measure (\<lambda>(re, s). length s)") auto

text \<open>``The first occurrence removed'': the scan stops behind the first match.\<close>

fun spec_remove_first :: "regex \<Rightarrow> jsstring \<Rightarrow> jsstring" where
  "spec_remove_first re [] = []"
| "spec_remove_first re (c # cs) =
     (case match_at re (c # cs) of
        None \<Rightarrow> c # spec_remove_first re cs
      | Some (n, grp) \<Rightarrow> drop n (c # cs))"

text \<open>The marker patterns in the order of the calls in \<^verbatim>\<open>extractDescription\<close>.\<close>

definition MARKER_REGEXES :: "regex list" where
  "MARKER_REGEXES = [DUE_DATE_REGEX, SCHEDULED_DATE_REGEX, START_DATE_REGEX,
     CREATED_DATE_REGEX, DONE_DATE_REGEX, RECURRENCE_REGEX, PRIORITY_HIGHEST_REGEX,
     PRIORITY_HIGH_REGEX, PRIORITY_MEDIUM_REGEX, PRIORITY_LOW_REGEX, PRIORITY_LOWEST_REGEX]"

definition spec_description :: "jsstring \<Rightarrow> jsstring" where
  "spec_description content =
     trim (replace_spaces (foldl (\<lambda>s re. spec_remove_all re s) content MARKER_REGEXES))"

text \<open>A line with two due-date markers.\<close>

definition two_due_line :: jsstring where
  "two_due_line = lit ''- [ ] pay '' @ GLYPH_DUE @ lit '' 2025-01-01 rent '' @ GLYPH_DUE
     @ lit '' 2025-02-02''"

section \<open>Task lines built from markers\<close>

text \<open>
  A marker is a glyph together with its value text: a date glyph with a date
  \<open>YYYY-MM-DD\<close>, the recurrence glyph with a rule text, or a priority glyph alone.
  \<open>markers_text desc ms\<close> is a task content made of the description \<open>desc\<close> (if any)
  and the markers \<open>ms\<close>, separated by single spaces.  Permuting \<open>ms\<close> permutes the
  glyph and value pairs of the line and keeps each pair intact.
\<close>

datatype marker =
    Date_marker jsstring jsstring jsstring jsstring
  | Recurrence_marker jsstring
  | Priority_marker jsstring

definition DATE_GLYPHS :: "jsstring list" where
  "DATE_GLYPHS = [GLYPH_DUE, GLYPH_SCHEDULED, GLYPH_START, GLYPH_CREATED, GLYPH_DONE]"

definition PRIORITY_GLYPHS :: "jsstring list" where
  "PRIORITY_GLYPHS = [GLYPH_HIGHEST, GLYPH_HIGH, GLYPH_MEDIUM, GLYPH_LOW, GLYPH_LOWEST]"

definition MARKER_GLYPHS :: "jsstring list" where
  "MARKER_GLYPHS = DATE_GLYPHS @ [GLYPH_RECURRENCE] @ PRIORITY_GLYPHS"

text \<open>A well-formed marker has a glyph of its kind; a date is four, two and two digits;
  a rule text is not empty, has no white space at either end and no code unit of the
  class of \<^verbatim>\<open>RECURRENCE_REGEX\<close>, which would end the capture.\<close>

definition date_text :: "jsstring \<Rightarrow> jsstring \<Rightarrow> jsstring \<Rightarrow> jsstring" where
  "date_text y m d = y @ [0x2D] @ m @ [0x2D] @ d"

fun render :: "marker \<Rightarrow> jsstring" where
  "render (Date_marker g y m d) = g @ [0x20] @ date_text y m d"
| "render (Recurrence_marker v) = GLYPH_RECURRENCE @ [0x20] @ v"
| "render (Priority_marker g) = g"

fun marker_glyph :: "marker \<Rightarrow> jsstring" where
  "marker_glyph (Date_marker g y m d) = g"
| "marker_glyph (Recurrence_marker v) = GLYPH_RECURRENCE"
| "marker_glyph (Priority_marker g) = g"

text \<open>The kind of a marker that carries a value: its glyph.\<close>

fun marker_kind :: "marker \<Rightarrow> jsstring option" where
  "marker_kind (Date_marker g y m d) = Some g"
| "marker_kind (Recurrence_marker v) = Some GLYPH_RECURRENCE"
| "marker_kind (Priority_marker g) = None"

fun marker_value :: "marker \<Rightarrow> jsstring" where
  "marker_value (Date_marker g y m d) = date_text y m d"
| "marker_value (Recurrence_marker v) = v"
| "marker_value (Priority_marker g) = []"

fun well_formed :: "marker \<Rightarrow> bool" where
  "well_formed (Date_marker g y m d) \<longleftrightarrow>
     g \<in> set DATE_GLYPHS \<and> length y = 4 \<and> length m = 2 \<and> length d = 2
     \<and> list_all is_digit y \<and> list_all is_digit m \<and> list_all is_digit d"
| "well_formed (Recurrence_marker v) \<longleftrightarrow>
     v \<noteq> [] \<and> \<not> is_space (hd v) \<and> \<not> is_space (last v)
     \<and> list_all (\<lambda>u. u \<notin> set RECURRENCE_CLASS) v"
| "well_formed (Priority_marker g) \<longleftrightarrow> g \<in> set PRIORITY_GLYPHS"

text \<open>A description without marker glyphs.\<close>

definition plain_text :: "jsstring \<Rightarrow> bool" where
  "plain_text desc \<longleftrightarrow> list_all (\<lambda>g. \<not> sublist g desc) MARKER_GLYPHS"

definition markers_text :: "jsstring \<Rightarrow> marker list \<Rightarrow> jsstring" where
  "markers_text desc ms =
     join ((if desc = [] then [] else [desc]) @ map render ms) (lit '' '')"

text \<open>The markers, each after one space.\<close>

definition sep_markers :: "marker list \<Rightarrow> jsstring" where
  "sep_markers ms = concat (map (\<lambda>m. 0x20 # render m) ms)"

text \<open>The glyph a pattern starts with.\<close>

fun re_glyph :: "regex \<Rightarrow> jsstring" where
  "re_glyph (Date_re g) = g"
| "re_glyph (Rec_re g stop) = g"
| "re_glyph (Glyph_re g) = g"

text \<open>The recurrence field as \<^verbatim>\<open>parseTaskLine\<close> computes it from the task content.\<close>

definition stored_recurrence :: "jsstring \<Rightarrow> jsstring option" where
  "stored_recurrence c =
     (case extractMatch c RECURRENCE_REGEX of
        None \<Rightarrow> None
      | Some r \<Rightarrow> if r \<noteq> [] then Some (trim r) else None)"

text \<open>Example markers and lines.\<close>

definition due_jan :: marker where
  "due_jan = Date_marker GLYPH_DUE (lit ''2025'') (lit ''01'') (lit ''01'')"

definition due_feb :: marker where
  "due_feb = Date_marker GLYPH_DUE (lit ''2025'') (lit ''02'') (lit ''02'')"

definition every_week :: marker where
  "every_week = Recurrence_marker (lit ''every week'')"

definition high :: marker where
  "high = Priority_marker GLYPH_HIGH"

definition marker_line :: "jsstring \<Rightarrow> marker list \<Rightarrow> jsstring" where
  "marker_line desc ms = lit ''- [ ] '' @ markers_text desc ms"

section \<open>Basic facts\<close>

lemma executeOperation_Nil: "executeOperation [] pname opn = None"
  by (simp add: executeOperation_def)

lemma processOperationMapping_Nil: "processOperationMapping m [] = []"
  by (simp add: processOperationMapping_def filterTasksByConditions_def executeOperation_Nil)

lemma digit_word:
  assumes "k < 10"
  shows "is_digit (0x30 + of_nat k) \<and> unat ((0x30 :: 16 word) + of_nat k - 0x30) = k"
proof -
  have "k \<in> {0, 1, 2, 3, 4, 5, 6, 7, 8, 9}" using assms by auto
  then show ?thesis by (auto simp: is_digit_def)
qed

lemma Number_digits_snoc:
  "Number_digits acc (xs @ [c]) =
     (case Number_digits acc xs of None \<Rightarrow> None
      | Some a \<Rightarrow> if is_digit c then Some (10 * a + unat (c - 0x30)) else None)"
  by (induction xs arbitrary: acc) auto

lemma String_nat_not_Nil: "String_nat n \<noteq> []"
  by (subst String_nat.simps) simp

lemma Number_digits_String_nat: "Number_digits 0 (String_nat n) = Some n"
proof (induction n rule: String_nat.induct)
  case (1 n)
  show ?case
  proof (cases "n < 10")
    case True
    then show ?thesis using digit_word[of n] by (subst String_nat.simps) simp
  next
    case False
    then have "Number_digits 0 (String_nat (n div 10)) = Some (n div 10)" using 1 by simp
    moreover have "n mod 10 < 10" by simp
    ultimately show ?thesis using False digit_word[of "n mod 10"]
      by (subst String_nat.simps) (simp add: Number_digits_snoc del: add_diff_cancel_left')
  qed
qed

lemma Number_str_String_nat: "Number_str (String_nat n) = Some n"
  by (simp add: Number_str_def String_nat_not_Nil Number_digits_String_nat)

lemma processDirectMapping_find:
  "processDirectMapping m tasks =
     (case List.find (\<lambda>t. \<exists>v. getTaskPropertyValue t (taskProperty m) = Some v \<and> v \<noteq> [])
             tasks of
        None \<Rightarrow> []
      | Some t \<Rightarrow>
          [\<lparr> key = frontmatterKey m,
             update_value = the (getTaskPropertyValue t (taskProperty m)),
             update_overwriteExisting = overwriteExisting m \<rparr>])"
  by (induction tasks) (auto split: option.splits)

lemma processDirectMapping_length: "length (processDirectMapping m tasks) \<le> 1"
  by (induction tasks) (auto split: option.splits)

lemma exec_re_None_iff:
  "exec_re re s = None \<longleftrightarrow> (\<forall>j\<le>length s. match_at re (drop j s) = None)"
proof (induction s)
  case Nil
  then show ?case by simp
next
  case (Cons c cs)
  have "(\<forall>j\<le>length (c # cs). match_at re (drop j (c # cs)) = None)
      \<longleftrightarrow> match_at re (c # cs) = None \<and> (\<forall>j\<le>length cs. match_at re (drop j cs) = None)"
    (is "?L \<longleftrightarrow> ?R")
  proof
    assume l: ?L
    have "match_at re (drop 0 (c # cs)) = None" using l by blast
    moreover have "match_at re (drop j cs) = None" if "j \<le> length cs" for j
      using l [rule_format, of "Suc j"] that by simp
    ultimately show ?R by simp
  next
    assume r: ?R
    show ?L
    proof (intro allI impI)
      fix j assume "j \<le> length (c # cs)"
      then show "match_at re (drop j (c # cs)) = None"
        using r by (cases j) auto
    qed
  qed
  then show ?case using Cons.IH by (auto split: option.splits)
qed

lemma exec_re_Some_iff:
  "exec_re re s = Some (i, n, grp) \<longleftrightarrow>
     i \<le> length s \<and> match_at re (drop i s) = Some (n, grp)
     \<and> (\<forall>j<i. match_at re (drop j s) = None)"
proof (induction s arbitrary: i)
  case Nil
  then show ?case by (auto split: option.splits)
next
  case (Cons c cs)
  show ?case
  proof (cases "match_at re (c # cs)")
    case None
    show ?thesis
    proof (cases i)
      case 0
      then show ?thesis using None by simp
    next
      case (Suc k)
      have "(\<forall>j<Suc k. match_at re (drop j (c # cs)) = None)
          \<longleftrightarrow> (\<forall>j<k. match_at re (drop j cs) = None)" (is "?L \<longleftrightarrow> ?R")
      proof
        assume l: ?L
        show ?R
        proof (intro allI impI)
          fix j assume "j < k"
          then show "match_at re (drop j cs) = None"
            using l [rule_format, of "Suc j"] by simp
        qed
      next
        assume r: ?R
        show ?L
        proof (intro allI impI)
          fix j assume "j < Suc k"
          then show "match_at re (drop j (c # cs)) = None"
            using r None by (cases j) auto
        qed
      qed
      then show ?thesis using None Suc Cons.IH [of k] by auto
    qed
  next
    case (Some a)
    then obtain n' g' where a: "a = (n', g')" by (cases a)
    show ?thesis
    proof (cases i)
      case 0
      then show ?thesis using Some a by auto
    next
      case (Suc k)
      have "\<not> (\<forall>j<Suc k. match_at re (drop j (c # cs)) = None)"
        using Some by (auto intro: exI [of _ 0])
      then show ?thesis using Some a Suc by auto
    qed
  qed
qed

lemma test_re_glyph: "test_re (Glyph_re g) s \<longleftrightarrow> sublist g s"
  unfolding test_re_def
  by (induction s) (auto simp: sublist_Cons_right split: option.splits if_splits)

lemma parse_priority:
  "map_option priority (parseTaskLine raw n) = map_option extractPriority (taskContent_of raw)"
  by (simp add: parseTaskLine_def taskContent_of_def Let_def split: option.splits prod.splits)

lemma parse_description:
  "map_option description (parseTaskLine raw n) = map_option extractDescription (taskContent_of raw)"
  by (simp add: parseTaskLine_def taskContent_of_def Let_def split: option.splits prod.splits)

lemma parse_recurrence:
  "map_option recurrence (parseTaskLine raw n) =
     map_option (\<lambda>c. case extractMatch c RECURRENCE_REGEX of None \<Rightarrow> None
                   | Some r \<Rightarrow> if r \<noteq> [] then Some (trim r) else None) (taskContent_of raw)"
  by (simp add: parseTaskLine_def taskContent_of_def Let_def split: option.splits prod.splits)

lemma extractPriority_sublist:
  "extractPriority c =
     (if sublist GLYPH_HIGHEST c then Some (lit ''highest'')
      else if sublist GLYPH_HIGH c then Some (lit ''high'')
      else if sublist GLYPH_MEDIUM c then Some (lit ''medium'')
      else if sublist GLYPH_LOW c then Some (lit ''low'')
      else if sublist GLYPH_LOWEST c then Some (lit ''lowest'')
      else None)"
  by (simp add: extractPriority_def test_re_glyph
      PRIORITY_HIGHEST_REGEX_def PRIORITY_HIGH_REGEX_def PRIORITY_MEDIUM_REGEX_def
      PRIORITY_LOW_REGEX_def PRIORITY_LOWEST_REGEX_def cong del: if_weak_cong)

lemma dropWhile_space_Nil_iff:
  "(\<forall>x\<in>set (dropWhile is_space s). is_space x) \<longleftrightarrow> (\<forall>x\<in>set s. is_space x)"
proof (cases "dropWhile is_space s")
  case Nil
  then have "\<forall>x\<in>set s. is_space x" by (simp add: dropWhile_eq_Nil_conv)
  then show ?thesis unfolding Nil by simp
next
  case (Cons y ys)
  then have "\<not> is_space y" using hd_dropWhile [of is_space s] by simp
  moreover have "y \<in> set s" using Cons set_dropWhileD [of y is_space s] by simp
  ultimately show ?thesis using Cons by auto
qed

lemma trim_eq_Nil_iff: "trim s = [] \<longleftrightarrow> (\<forall>x\<in>set s. is_space x)"
  by (simp add: trim_def dropWhile_eq_Nil_conv dropWhile_space_Nil_iff)

lemma no_recurrence_before:
  assumes "\<not> sublist GLYPH_RECURRENCE pre" and "j < length pre"
  shows "\<not> prefix GLYPH_RECURRENCE (drop j pre @ GLYPH_RECURRENCE @ rest)"
proof
  assume p: "prefix GLYPH_RECURRENCE (drop j pre @ GLYPH_RECURRENCE @ rest)"
  have "suffix (drop j pre) pre" by (rule suffix_drop)
  then have ns: "\<not> sublist GLYPH_RECURRENCE (drop j pre)"
    using assms(1) by (meson sublist_order.order.trans suffix_imp_sublist)
  obtain x xs where d: "drop j pre = x # xs"
    using assms(2) by (cases "drop j pre") auto
  show False
  proof (cases xs)
    case Nil
    then show ?thesis using p d by (simp add: GLYPH_RECURRENCE_def)
  next
    case (Cons y ys)
    then have "prefix GLYPH_RECURRENCE (drop j pre)"
      using p d by (simp add: GLYPH_RECURRENCE_def)
    then show ?thesis using ns by (simp add: prefix_imp_sublist)
  qed
qed

lemma exec_recurrence:
  assumes "\<not> sublist GLYPH_RECURRENCE pre"
  shows "extractMatch (pre @ GLYPH_RECURRENCE @ rest) RECURRENCE_REGEX =
     Some (takeWhile (\<lambda>u. u \<notin> set RECURRENCE_CLASS) (dropWhile is_space rest))"
proof -
  let ?s = "pre @ GLYPH_RECURRENCE @ rest"
  let ?cap = "takeWhile (\<lambda>u. u \<notin> set RECURRENCE_CLASS) (dropWhile is_space rest)"
  let ?n = "length GLYPH_RECURRENCE + length (takeWhile is_space rest) + length ?cap"
  have m: "match_at RECURRENCE_REGEX (drop (length pre) ?s) = Some (?n, Some ?cap)"
    by (simp add: RECURRENCE_REGEX_def Let_def)
  have b: "\<forall>j<length pre. match_at RECURRENCE_REGEX (drop j ?s) = None"
    using no_recurrence_before [OF assms] by (simp add: RECURRENCE_REGEX_def)
  have "exec_re RECURRENCE_REGEX ?s = Some (length pre, ?n, Some ?cap)"
    unfolding exec_re_Some_iff using m b by simp
  then show ?thesis by (simp add: extractMatch_def)
qed

lemma replace_re_first: "replace_re s re = spec_remove_first re s"
proof (induction s)
  case Nil
  then show ?case by (simp add: replace_re_def split: option.splits)
next
  case (Cons c cs)
  show ?case
  proof (cases "match_at re (c # cs)")
    case None
    then show ?thesis
      using Cons.IH by (cases "exec_re re cs") (auto simp: replace_re_def)
  next
    case (Some a)
    then show ?thesis by (cases a) (simp add: replace_re_def)
  qed
qed

lemma strip_markers_foldl: "strip_markers c = foldl replace_re c MARKER_REGEXES"
  by (simp add: strip_markers_def MARKER_REGEXES_def)

lemma extractDescription_first:
  "extractDescription c =
     trim (replace_spaces (foldl (\<lambda>s re. spec_remove_first re s) c MARKER_REGEXES))"
proof -
  have "replace_re = (\<lambda>s re. spec_remove_first re s)"
    by (intro ext) (rule replace_re_first)
  then have "foldl replace_re c MARKER_REGEXES
      = foldl (\<lambda>s re. spec_remove_first re s) c MARKER_REGEXES"
    by (rule arg_cong)
  then show ?thesis
    by (simp only: extractDescription_def strip_markers_foldl)
qed

lemma description_first_matches:
  "map_option description (parseTaskLine raw n) =
     map_option (\<lambda>c. trim (replace_spaces
         (foldl (\<lambda>s re. spec_remove_first re s) c MARKER_REGEXES))) (taskContent_of raw)"
  unfolding parse_description
  by (rule map_option_cong [OF refl]) (rule extractDescription_first)

subsection \<open>Searching texts built from markers\<close>

lemma match_at_no_prefix: "\<not> prefix (re_glyph re) s \<Longrightarrow> match_at re s = None"
  by (cases re) simp_all

lemma prefix_Cons_hd: "prefix (u # us) ys \<Longrightarrow> ys \<noteq> [] \<and> hd ys = u"
  by (cases ys) auto

lemma exec_re_append_shift:
  assumes "\<forall>j<length b. match_at re (drop j b @ rest) = None"
  shows "exec_re re (b @ rest) =
     map_option (\<lambda>(i, n, grp). (length b + i, n, grp)) (exec_re re rest)"
  using assms
proof (induction b)
  case Nil
  then show ?case by (cases "exec_re re rest") auto
next
  case (Cons x b)
  have h: "match_at re (x # b @ rest) = None"
    using Cons.prems [rule_format, of 0] by simp
  have "\<forall>j<length b. match_at re (drop j b @ rest) = None"
  proof (intro allI impI)
    fix j assume "j < length b"
    then show "match_at re (drop j b @ rest) = None"
      using Cons.prems [rule_format, of "Suc j"] by simp
  qed
  then have "exec_re re (b @ rest) =
     map_option (\<lambda>(i, n, grp). (length b + i, n, grp)) (exec_re re rest)"
    by (rule Cons.IH)
  then show ?case using h by (cases "exec_re re rest") auto
qed

lemma no_prefix_inside:
  assumes "\<not> sublist g b" and "rest = [] \<or> hd rest \<notin> set g" and "j < length b"
  shows "\<not> prefix g (drop j b @ rest)"
proof
  assume p: "prefix g (drop j b @ rest)"
  have ns: "\<not> prefix g (drop j b)"
  proof
    assume "prefix g (drop j b)"
    then have "sublist g (drop j b)" by (rule prefix_imp_sublist)
    moreover have "sublist (drop j b) b" by (simp add: suffix_drop suffix_imp_sublist)
    ultimately show False using assms(1) by (meson sublist_order.order.trans)
  qed
  from p ns obtain us where g: "g = drop j b @ us" and u: "prefix us rest"
    by (auto simp: prefix_append)
  have "us \<noteq> []" using g ns by auto
  then obtain u us' where us: "us = u # us'" by (cases us) auto
  then have "prefix (u # us') rest" using u by simp
  then have "rest \<noteq> [] \<and> hd rest = u" by (rule prefix_Cons_hd)
  moreover have "u \<in> set g" using g us by simp
  ultimately show False using assms(2) by auto
qed

lemma exec_re_skip:
  assumes "\<not> sublist (re_glyph re) b" and "rest = [] \<or> hd rest \<notin> set (re_glyph re)"
  shows "exec_re re (b @ rest) =
     map_option (\<lambda>(i, n, grp). (length b + i, n, grp)) (exec_re re rest)"
proof (rule exec_re_append_shift, intro allI impI)
  fix j assume "j < length b"
  then have "\<not> prefix (re_glyph re) (drop j b @ rest)"
    using assms by (rule no_prefix_inside [rotated 2])
  then show "match_at re (drop j b @ rest) = None" by (rule match_at_no_prefix)
qed

lemma extractMatch_skip:
  assumes "\<not> sublist (re_glyph re) b" and "rest = [] \<or> hd rest \<notin> set (re_glyph re)"
  shows "extractMatch (b @ rest) re = extractMatch rest re"
  unfolding extractMatch_def exec_re_skip [OF assms]
  by (cases "exec_re re rest") auto

lemma extractMatch_skip_unit:
  assumes "re_glyph re \<noteq> []" and "hd (re_glyph re) \<noteq> x"
  shows "extractMatch (x # s) re = extractMatch s re"
proof -
  have "\<not> prefix (re_glyph re) (x # s)"
    using assms by (cases "re_glyph re") (auto simp: prefix_Cons)
  then have "match_at re (x # s) = None" by (rule match_at_no_prefix)
  then show ?thesis
    by (cases "exec_re re s") (auto simp: extractMatch_def)
qed

lemma sublist_append_no_straddle:
  assumes "ys = [] \<or> hd ys \<notin> set g"
  shows "sublist g (xs @ ys) \<longleftrightarrow> sublist g xs \<or> sublist g ys"
proof
  assume "sublist g (xs @ ys)"
  then consider "sublist g xs" | "sublist g ys"
    | xs1 xs2 where "g = xs1 @ xs2" "suffix xs1 xs" "prefix xs2 ys"
    by (auto simp: sublist_append)
  then show "sublist g xs \<or> sublist g ys"
  proof cases
    case 3
    show ?thesis
    proof (cases xs2)
      case Nil
      then show ?thesis using 3 by (simp add: suffix_imp_sublist)
    next
      case (Cons u us)
      then have "prefix (u # us) ys" using 3(3) by simp
      then have "ys \<noteq> [] \<and> hd ys = u" by (rule prefix_Cons_hd)
      moreover have "u \<in> set g" using 3(1) Cons by simp
      ultimately show ?thesis using assms by auto
    qed
  qed auto
next
  assume "sublist g xs \<or> sublist g ys"
  then show "sublist g (xs @ ys)" by (auto simp: sublist_append)
qed

lemma not_sublist_without_head:
  assumes "\<forall>u\<in>set v. u \<noteq> hd g" and "g \<noteq> []"
  shows "\<not> sublist g v"
proof
  assume "sublist g v"
  then have "set g \<subseteq> set v" by (rule set_mono_sublist)
  moreover have "hd g \<in> set g" using assms(2) by simp
  ultimately show False using assms(1) by auto
qed

lemma join_Cons: "join (x # xs) sep = x @ concat (map (\<lambda>y. sep @ y) xs)"
  by (induction xs arbitrary: x) auto

lemmas glyph_defs = GLYPH_DUE_def GLYPH_SCHEDULED_def GLYPH_START_def GLYPH_CREATED_def
  GLYPH_DONE_def GLYPH_RECURRENCE_def GLYPH_HIGHEST_def GLYPH_HIGH_def GLYPH_MEDIUM_def
  GLYPH_LOW_def GLYPH_LOWEST_def GLYPH_ID_def

lemma marker_glyph_cases:
  "g \<in> set MARKER_GLYPHS \<longleftrightarrow>
     g = GLYPH_DUE \<or> g = GLYPH_SCHEDULED \<or> g = GLYPH_START \<or> g = GLYPH_CREATED
     \<or> g = GLYPH_DONE \<or> g = GLYPH_RECURRENCE \<or> g = GLYPH_HIGHEST \<or> g = GLYPH_HIGH
     \<or> g = GLYPH_MEDIUM \<or> g = GLYPH_LOW \<or> g = GLYPH_LOWEST"
  by (simp add: MARKER_GLYPHS_def DATE_GLYPHS_def PRIORITY_GLYPHS_def)

lemma marker_glyph_hd:
  assumes "g \<in> set MARKER_GLYPHS"
  shows "g \<noteq> []" and "hd g \<in> set RECURRENCE_CLASS" and "\<not> is_digit (hd g)"
    and "hd g \<noteq> 0x2D" and "\<not> is_space (hd g)" and "0x20 \<notin> set g"
  using assms unfolding marker_glyph_cases
  by (auto simp: glyph_defs RECURRENCE_CLASS_def is_digit_def is_space_def)

lemma sublist_glyph_glyph:
  assumes "g \<in> set MARKER_GLYPHS" and "g' \<in> set MARKER_GLYPHS"
  shows "sublist g (0x20 # g') \<longleftrightarrow> g = g'"
  using assms unfolding marker_glyph_cases
  by (elim disjE; simp add: glyph_defs sublist_Cons_right prefix_Cons)

lemma date_glyph_marker_glyph: "g \<in> set DATE_GLYPHS \<Longrightarrow> g \<in> set MARKER_GLYPHS"
  by (simp add: MARKER_GLYPHS_def)

lemma priority_glyph_marker_glyph: "g \<in> set PRIORITY_GLYPHS \<Longrightarrow> g \<in> set MARKER_GLYPHS"
  by (simp add: MARKER_GLYPHS_def)

lemma recurrence_glyph_marker_glyph: "GLYPH_RECURRENCE \<in> set MARKER_GLYPHS"
  by (simp add: MARKER_GLYPHS_def)

lemma well_formed_glyph: "well_formed m \<Longrightarrow> marker_glyph m \<in> set MARKER_GLYPHS"
  by (cases m) (simp_all add: MARKER_GLYPHS_def)

lemma digit_not_space:
  assumes "is_digit u"
  shows "\<not> is_space u"
proof -
  have le: "u \<le> 0x39" using assms by (simp add: is_digit_def)
  have "\<not> 0x2000 \<le> u"
  proof
    assume "0x2000 \<le> u"
    then have "(0x2000 :: 16 word) \<le> 0x39" using le by (rule order_trans)
    then show False by simp
  qed
  then show ?thesis using assms by (auto simp: is_digit_def is_space_def)
qed

lemma date_text_units:
  assumes "list_all is_digit y" "list_all is_digit m" "list_all is_digit d"
    and "u \<in> set (date_text y m d)"
  shows "is_digit u \<or> u = 0x2D"
  using assms by (auto simp: date_text_def list_all_iff)

lemma sublist_glyph_block:
  assumes "well_formed m" and "g \<in> set MARKER_GLYPHS"
  shows "sublist g (0x20 # render m) \<longleftrightarrow> marker_glyph m = g"
proof (cases m)
  case (Date_marker g' y mo d)
  have g': "g' \<in> set MARKER_GLYPHS"
    using assms(1) Date_marker by (simp add: date_glyph_marker_glyph)
  have "\<forall>u\<in>set (0x20 # date_text y mo d). u \<noteq> hd g"
    using assms(1) Date_marker marker_glyph_hd(3,4,6) [OF assms(2)] marker_glyph_hd(1) [OF assms(2)]
      date_text_units [of y mo d]
    by (cases g) auto
  then have n: "\<not> sublist g (0x20 # date_text y mo d)"
    using marker_glyph_hd(1) [OF assms(2)] by (rule not_sublist_without_head)
  have "sublist g ((0x20 # g') @ (0x20 # date_text y mo d))
      \<longleftrightarrow> sublist g (0x20 # g') \<or> sublist g (0x20 # date_text y mo d)"
    using marker_glyph_hd(6) [OF assms(2)] by (intro sublist_append_no_straddle) simp
  then show ?thesis
    using n sublist_glyph_glyph [OF assms(2) g'] Date_marker by auto
next
  case (Recurrence_marker v)
  have "\<forall>u\<in>set (0x20 # v). u \<noteq> hd g"
    using assms(1) Recurrence_marker marker_glyph_hd(2,6) [OF assms(2)]
      marker_glyph_hd(1) [OF assms(2)]
    by (cases g) (auto simp: list_all_iff)
  then have n: "\<not> sublist g (0x20 # v)"
    using marker_glyph_hd(1) [OF assms(2)] by (rule not_sublist_without_head)
  have "sublist g ((0x20 # GLYPH_RECURRENCE) @ (0x20 # v))
      \<longleftrightarrow> sublist g (0x20 # GLYPH_RECURRENCE) \<or> sublist g (0x20 # v)"
    using marker_glyph_hd(6) [OF assms(2)] by (intro sublist_append_no_straddle) simp
  then show ?thesis
    using n sublist_glyph_glyph [OF assms(2) recurrence_glyph_marker_glyph] Recurrence_marker
    by auto
next
  case (Priority_marker p)
  then show ?thesis
    using assms sublist_glyph_glyph [OF assms(2), of p]
    by (auto simp: priority_glyph_marker_glyph)
qed

lemma sep_markers_Nil [simp]: "sep_markers [] = []"
  by (simp add: sep_markers_def)

lemma sep_markers_Cons: "sep_markers (m # ms) = (0x20 # render m) @ sep_markers ms"
  by (simp add: sep_markers_def)

lemma sep_markers_hd: "sep_markers ms = [] \<or> hd (sep_markers ms) = 0x20"
  by (cases ms) (simp_all add: sep_markers_Cons)

lemma sep_markers_no_straddle:
  "g \<in> set MARKER_GLYPHS \<Longrightarrow> sep_markers ms = [] \<or> hd (sep_markers ms) \<notin> set g"
  using sep_markers_hd [of ms] marker_glyph_hd(6) [of g] by auto

lemma sublist_glyph_sep_markers:
  assumes "g \<in> set MARKER_GLYPHS" and "list_all well_formed ms"
  shows "sublist g (sep_markers ms) \<longleftrightarrow> g \<in> marker_glyph ` set ms"
  using assms(2)
proof (induction ms)
  case Nil
  then show ?case using marker_glyph_hd(1) [OF assms(1)] by simp
next
  case (Cons m ms)
  have "sublist g ((0x20 # render m) @ sep_markers ms)
      \<longleftrightarrow> sublist g (0x20 # render m) \<or> sublist g (sep_markers ms)"
    using sep_markers_no_straddle [OF assms(1)] by (rule sublist_append_no_straddle)
  then show ?case
    using Cons sublist_glyph_block [of m g] assms(1)
    by (auto simp: sep_markers_Cons)
qed

lemma markers_text_desc: "desc \<noteq> [] \<Longrightarrow> markers_text desc ms = desc @ sep_markers ms"
  by (simp add: markers_text_def join_Cons sep_markers_def lit_def comp_def)

lemma markers_text_Nil: "sep_markers ms = (if ms = [] then [] else 0x20 # markers_text [] ms)"
  by (cases ms) (simp_all add: markers_text_def join_Cons sep_markers_def lit_def comp_def)

lemma glyph_kinds_disjoint:
  "g \<in> set DATE_GLYPHS \<Longrightarrow> g \<notin> set PRIORITY_GLYPHS"
  "g \<in> set DATE_GLYPHS \<Longrightarrow> g \<noteq> GLYPH_RECURRENCE"
  "g \<in> set PRIORITY_GLYPHS \<Longrightarrow> g \<noteq> GLYPH_RECURRENCE"
  by (auto simp: DATE_GLYPHS_def PRIORITY_GLYPHS_def glyph_defs)

lemma length_four: "length xs = 4 \<Longrightarrow> \<exists>a b c d. xs = [a, b, c, d]"
  by (auto simp: eval_nat_numeral length_Suc_conv)

lemma length_two: "length xs = 2 \<Longrightarrow> \<exists>a b. xs = [a, b]"
  by (auto simp: eval_nat_numeral length_Suc_conv)

lemma date_text_shape:
  assumes "length y = 4" "length m = 2" "length d = 2"
    and "list_all is_digit y" "list_all is_digit m" "list_all is_digit d"
  shows "date_shape (date_text y m d @ rest)"
    and "take 10 (date_text y m d @ rest) = date_text y m d"
    and "dropWhile is_space (date_text y m d @ rest) = date_text y m d @ rest"
    and "takeWhile is_space (date_text y m d @ rest) = []"
proof -
  obtain y1 y2 y3 y4 where y: "y = [y1, y2, y3, y4]" using length_four [OF assms(1)] by blast
  obtain m1 m2 where m: "m = [m1, m2]" using length_two [OF assms(2)] by blast
  obtain d1 d2 where d: "d = [d1, d2]" using length_two [OF assms(3)] by blast
  show "date_shape (date_text y m d @ rest)"
    using assms(4-6) unfolding y m d by (simp add: date_shape_def date_text_def)
  show "take 10 (date_text y m d @ rest) = date_text y m d"
    unfolding y m d by (simp add: date_text_def)
  have "\<not> is_space y1" using assms(4) unfolding y by (simp add: digit_not_space)
  then show "dropWhile is_space (date_text y m d @ rest) = date_text y m d @ rest"
    and "takeWhile is_space (date_text y m d @ rest) = []"
    unfolding y by (simp_all add: date_text_def)
qed

lemma space_is_space: "is_space 0x20"
  by (simp add: is_space_def)

lemma extract_date_block:
  assumes "well_formed (Date_marker g y mo d)"
  shows "extractMatch ((0x20 # render (Date_marker g y mo d)) @ rest) (Date_re g)
     = Some (date_text y mo d)"
proof -
  have gm: "g \<in> set MARKER_GLYPHS" using assms by (simp add: date_glyph_marker_glyph)
  obtain a g' where g: "g = a # g'" using marker_glyph_hd(1) [OF gm] by (cases g) auto
  have a: "a \<noteq> 0x20" using marker_glyph_hd(6) [OF gm] g by auto
  let ?t = "date_text y mo d"
  have wf: "length y = 4" "length mo = 2" "length d = 2"
      "list_all is_digit y" "list_all is_digit mo" "list_all is_digit d"
    using assms by simp_all
  have ds: "date_shape (?t @ rest)" and tk: "take 10 (?t @ rest) = ?t"
    and dw: "dropWhile is_space (0x20 # ?t @ rest) = ?t @ rest"
    and tw: "takeWhile is_space (0x20 # ?t @ rest) = [0x20]"
    using date_text_shape [OF wf, of rest] by (simp_all add: space_is_space)
  have m: "match_at (Date_re g) (g @ 0x20 # ?t @ rest)
      = Some (length g + 1 + 10, Some ?t)"
    by (simp add: Let_def ds tk dw tw del: take_append dropWhile.simps takeWhile.simps)
  have "extractMatch (g @ 0x20 # ?t @ rest) (Date_re g) = Some ?t"
    using m unfolding g by (simp add: extractMatch_def)
  moreover have "extractMatch (0x20 # g @ 0x20 # ?t @ rest) (Date_re g)
      = extractMatch (g @ 0x20 # ?t @ rest) (Date_re g)"
    using a g by (intro extractMatch_skip_unit) auto
  ultimately show ?thesis by simp
qed

lemma dropWhile_hd_id: "xs \<noteq> [] \<Longrightarrow> \<not> P (hd xs) \<Longrightarrow> dropWhile P xs = xs"
  by (cases xs) auto

lemma trim_well_formed:
  assumes "v \<noteq> []" "\<not> is_space (hd v)" "\<not> is_space (last v)"
  shows "trim v = v" and "trim (v @ [0x20]) = v"
proof -
  have d: "dropWhile is_space v = v" using assms(1,2) by (rule dropWhile_hd_id)
  have "rev v \<noteq> []" and "\<not> is_space (hd (rev v))" using assms(1,3) by (simp_all add: hd_rev)
  then have r: "dropWhile is_space (rev v) = rev v" by (rule dropWhile_hd_id)
  show "trim v = v" by (simp add: trim_def d r)
  have "v @ [0x20] \<noteq> []" and "\<not> is_space (hd (v @ [0x20]))" using assms(1,2) by simp_all
  then have "dropWhile is_space (v @ [0x20]) = v @ [0x20]" by (rule dropWhile_hd_id)
  then show "trim (v @ [0x20]) = v" by (simp add: trim_def r space_is_space)
qed

lemma render_hd:
  assumes "well_formed m"
  shows "render m \<noteq> []" and "hd (render m) \<in> set RECURRENCE_CLASS"
proof -
  have g: "marker_glyph m \<in> set MARKER_GLYPHS" using assms by (rule well_formed_glyph)
  obtain a g' where "marker_glyph m = a # g'" using marker_glyph_hd(1) [OF g]
    by (cases "marker_glyph m") auto
  moreover have "\<exists>t. render m = marker_glyph m @ t" by (cases m) auto
  ultimately show "render m \<noteq> []" and "hd (render m) \<in> set RECURRENCE_CLASS"
    using marker_glyph_hd(2) [OF g] by auto
qed

lemma space_not_in_class: "0x20 \<notin> set RECURRENCE_CLASS"
  by (simp add: RECURRENCE_CLASS_def glyph_defs)

lemma takeWhile_sep_markers:
  assumes "list_all well_formed ms"
  shows "takeWhile (\<lambda>u. u \<notin> set RECURRENCE_CLASS) (sep_markers ms)
     = (if ms = [] then [] else [0x20])"
proof (cases ms)
  case Nil
  then show ?thesis by simp
next
  case (Cons m ms')
  then have "well_formed m" using assms by simp
  then obtain h t where "render m = h # t" and "h \<in> set RECURRENCE_CLASS"
    using render_hd [of m] by (cases "render m") auto
  then show ?thesis using Cons by (simp add: sep_markers_Cons space_not_in_class)
qed

lemma stored_recurrence_block:
  assumes "well_formed (Recurrence_marker v)" and "list_all well_formed ms"
  shows "stored_recurrence ((0x20 # render (Recurrence_marker v)) @ sep_markers ms) = Some v"
proof -
  let ?S = "sep_markers ms"
  have v: "v \<noteq> []" "\<not> is_space (hd v)" "\<not> is_space (last v)"
    and c: "\<forall>u\<in>set v. u \<notin> set RECURRENCE_CLASS"
    using assms(1) by (simp_all add: list_all_iff)
  have "\<not> sublist GLYPH_RECURRENCE [0x20]"
    by (simp add: GLYPH_RECURRENCE_def sublist_Cons_right prefix_Cons)
  then have "extractMatch ([0x20] @ GLYPH_RECURRENCE @ (0x20 # v @ ?S)) RECURRENCE_REGEX
      = Some (takeWhile (\<lambda>u. u \<notin> set RECURRENCE_CLASS) (dropWhile is_space (0x20 # v @ ?S)))"
    by (rule exec_recurrence)
  moreover have "dropWhile is_space (0x20 # v @ ?S) = v @ ?S"
    using v(1,2) by (cases v) (auto simp: space_is_space)
  moreover have "takeWhile (\<lambda>u. u \<notin> set RECURRENCE_CLASS) (v @ ?S)
      = v @ (if ms = [] then [] else [0x20])"
    using c takeWhile_sep_markers [OF assms(2)] by (simp add: takeWhile_append2)
  ultimately have "extractMatch ((0x20 # render (Recurrence_marker v)) @ ?S) RECURRENCE_REGEX
      = Some (v @ (if ms = [] then [] else [0x20]))"
    by simp
  then show ?thesis
    using v trim_well_formed [OF v] by (simp add: stored_recurrence_def)
qed

lemma extractMatch_skip_block:
  assumes "re_glyph re \<in> set MARKER_GLYPHS" and "well_formed m"
    and "marker_glyph m \<noteq> re_glyph re"
  shows "extractMatch ((0x20 # render m) @ sep_markers ms) re = extractMatch (sep_markers ms) re"
proof (rule extractMatch_skip)
  show "\<not> sublist (re_glyph re) (0x20 # render m)"
    using assms sublist_glyph_block [of m "re_glyph re"] by simp
  show "sep_markers ms = [] \<or> hd (sep_markers ms) \<notin> set (re_glyph re)"
    using assms(1) by (rule sep_markers_no_straddle)
qed

lemma extractMatch_Nil:
  assumes "re_glyph re \<noteq> []"
  shows "extractMatch [] re = None"
proof -
  have "match_at re [] = None" using assms by (intro match_at_no_prefix) simp
  then show ?thesis by (simp add: extractMatch_def)
qed

lemma date_of_sep_markers:
  assumes "k \<in> set DATE_GLYPHS" and "list_all well_formed ms"
  shows "extractMatch (sep_markers ms) (Date_re k)
     = map_option marker_value (List.find (\<lambda>m. marker_kind m = Some k) ms)"
  using assms(2)
proof (induction ms)
  case Nil
  have "k \<noteq> []" using assms(1) marker_glyph_hd(1) date_glyph_marker_glyph by blast
  then show ?case by (simp add: extractMatch_Nil)
next
  case (Cons m ms)
  have wf: "well_formed m" "list_all well_formed ms" using Cons.prems by simp_all
  show ?case
  proof (cases "marker_kind m = Some k")
    case True
    then obtain y mo d where m: "m = Date_marker k y mo d"
      using glyph_kinds_disjoint(2) [OF assms(1)] by (cases m) auto
    show ?thesis
      using extract_date_block [of k y mo d "sep_markers ms"] wf(1) True
      unfolding m by (simp add: sep_markers_Cons)
  next
    case False
    have "marker_glyph m \<noteq> k"
      using False wf(1) glyph_kinds_disjoint(1,2) [OF assms(1)] by (cases m) auto
    then have "extractMatch ((0x20 # render m) @ sep_markers ms) (Date_re k)
        = extractMatch (sep_markers ms) (Date_re k)"
      using assms(1) wf(1) by (intro extractMatch_skip_block) (simp_all add: date_glyph_marker_glyph)
    then show ?thesis using False Cons.IH [OF wf(2)] by (simp add: sep_markers_Cons)
  qed
qed

lemma recurrence_of_sep_markers:
  assumes "list_all well_formed ms"
  shows "stored_recurrence (sep_markers ms)
     = map_option marker_value (List.find (\<lambda>m. marker_kind m = Some GLYPH_RECURRENCE) ms)"
  using assms
proof (induction ms)
  case Nil
  have "GLYPH_RECURRENCE \<noteq> []" by (simp add: GLYPH_RECURRENCE_def)
  then show ?case by (simp add: stored_recurrence_def extractMatch_Nil RECURRENCE_REGEX_def)
next
  case (Cons m ms)
  have wf: "well_formed m" "list_all well_formed ms" using Cons.prems by simp_all
  show ?case
  proof (cases "marker_kind m = Some GLYPH_RECURRENCE")
    case True
    then obtain v where m: "m = Recurrence_marker v"
      using wf(1) glyph_kinds_disjoint(2) by (cases m) auto
    show ?thesis
      using stored_recurrence_block [of v ms] wf True
      unfolding m by (simp add: sep_markers_Cons)
  next
    case False
    have "marker_glyph m \<noteq> GLYPH_RECURRENCE"
      using False wf(1) glyph_kinds_disjoint(3) by (cases m) auto
    then have "extractMatch ((0x20 # render m) @ sep_markers ms) RECURRENCE_REGEX
        = extractMatch (sep_markers ms) RECURRENCE_REGEX"
      using wf(1) by (intro extractMatch_skip_block)
        (simp_all add: RECURRENCE_REGEX_def recurrence_glyph_marker_glyph)
    then show ?thesis
      using False Cons.IH [OF wf(2)] by (simp add: sep_markers_Cons stored_recurrence_def)
  qed
qed

lemma extractMatch_markers_text:
  assumes "re_glyph re \<in> set MARKER_GLYPHS" and "plain_text desc"
  shows "extractMatch (markers_text desc ms) re = extractMatch (sep_markers ms) re"
proof (cases "desc = []")
  case True
  show ?thesis
  proof (cases "ms = []")
    case True
    then show ?thesis using \<open>desc = []\<close> by (simp add: markers_text_def)
  next
    case False
    have "extractMatch (0x20 # markers_text [] ms) re = extractMatch (markers_text [] ms) re"
      using marker_glyph_hd(1,6) [OF assms(1)]
      by (intro extractMatch_skip_unit) (auto simp: neq_Nil_conv)
    then show ?thesis using False \<open>desc = []\<close> markers_text_Nil [of ms] by simp
  qed
next
  case False
  have "\<not> sublist (re_glyph re) desc"
    using assms by (simp add: plain_text_def list_all_iff)
  then have "extractMatch (desc @ sep_markers ms) re = extractMatch (sep_markers ms) re"
    using sep_markers_no_straddle [OF assms(1)] by (rule extractMatch_skip)
  then show ?thesis using False by (simp add: markers_text_desc)
qed

lemma sublist_markers_text:
  assumes "g \<in> set MARKER_GLYPHS" and "plain_text desc" and "list_all well_formed ms"
  shows "sublist g (markers_text desc ms) \<longleftrightarrow> g \<in> marker_glyph ` set ms"
proof (cases "desc = []")
  case True
  show ?thesis
  proof (cases "ms = []")
    case True
    then show ?thesis
      using \<open>desc = []\<close> marker_glyph_hd(1) [OF assms(1)] by (simp add: markers_text_def)
  next
    case False
    have "\<not> prefix g (0x20 # markers_text [] ms)"
      using marker_glyph_hd(1,6) [OF assms(1)] by (cases g) (auto simp: prefix_Cons)
    then have "sublist g (0x20 # markers_text [] ms) \<longleftrightarrow> sublist g (markers_text [] ms)"
      by (simp add: sublist_Cons_right)
    then show ?thesis
      using False \<open>desc = []\<close> markers_text_Nil [of ms]
        sublist_glyph_sep_markers [OF assms(1,3)] by simp
  qed
next
  case False
  have "\<not> sublist g desc"
    using assms(1,2) by (simp add: plain_text_def list_all_iff)
  moreover have "sublist g (desc @ sep_markers ms)
      \<longleftrightarrow> sublist g desc \<or> sublist g (sep_markers ms)"
    using sep_markers_no_straddle [OF assms(1)] by (rule sublist_append_no_straddle)
  ultimately show ?thesis
    using False sublist_glyph_sep_markers [OF assms(1,3)] by (simp add: markers_text_desc)
qed

lemma extractPriority_markers_text:
  assumes "plain_text desc" and "list_all well_formed ms"
  shows "extractPriority (markers_text desc ms) =
     (if GLYPH_HIGHEST \<in> marker_glyph ` set ms then Some (lit ''highest'')
      else if GLYPH_HIGH \<in> marker_glyph ` set ms then Some (lit ''high'')
      else if GLYPH_MEDIUM \<in> marker_glyph ` set ms then Some (lit ''medium'')
      else if GLYPH_LOW \<in> marker_glyph ` set ms then Some (lit ''low'')
      else if GLYPH_LOWEST \<in> marker_glyph ` set ms then Some (lit ''lowest'')
      else None)"
proof -
  have "sublist g (markers_text desc ms) \<longleftrightarrow> g \<in> marker_glyph ` set ms"
    if "g \<in> set PRIORITY_GLYPHS" for g
    using that assms by (intro sublist_markers_text) (simp_all add: priority_glyph_marker_glyph)
  then show ?thesis
    by (simp add: extractPriority_sublist PRIORITY_GLYPHS_def cong del: if_weak_cong)
qed

lemma find_filter:
  "List.find P xs = (case filter P xs of [] \<Rightarrow> None | x # _ \<Rightarrow> Some x)"
  by (induction xs) auto

lemma find_unique_mset:
  assumes "mset ms' = mset ms" and "length (filter P ms) \<le> 1"
  shows "List.find P ms' = List.find P ms"
proof -
  have e: "mset (filter P ms') = mset (filter P ms)"
    using assms(1) by simp
  show ?thesis
  proof (cases "filter P ms")
    case Nil
    then have "mset (filter P ms') = {#}" using e by (simp del: mset_filter)
    then have "filter P ms' = []" by (simp only: mset_zero_iff)
    then show ?thesis using Nil by (simp add: find_filter)
  next
    case (Cons x xs)
    then have "xs = []" using assms(2) by simp
    then have "mset (filter P ms') = {#x#}" using e Cons by (simp del: mset_filter)
    then have "filter P ms' = [x]" by (simp only: mset_single_iff)
    then show ?thesis using Cons \<open>xs = []\<close> by (simp add: find_filter)
  qed
qed

lemma distinct_kinds_filter:
  assumes "distinct (List.map_filter marker_kind ms)"
  shows "length (filter (\<lambda>m. marker_kind m = Some k) ms) \<le> 1"
  using assms
proof (induction ms)
  case Nil
  then show ?case by simp
next
  case (Cons m ms)
  show ?case
  proof (cases "marker_kind m = Some k")
    case True
    then have "k \<notin> set (List.map_filter marker_kind ms)"
      using Cons.prems by (simp add: map_filter_simps)
    have "marker_kind x \<noteq> Some k" if "x \<in> set ms" for x
    proof
      assume "marker_kind x = Some k"
      then have "k \<in> (the \<circ> marker_kind) ` {x \<in> set ms. marker_kind x \<noteq> None}"
        using that by force
      then show False using \<open>k \<notin> set (List.map_filter marker_kind ms)\<close>
        by (simp add: map_filter_def)
    qed
    then have "filter (\<lambda>m. marker_kind m = Some k) ms = []"
      by (simp add: filter_empty_conv)
    then show ?thesis using True by simp
  next
    case False
    then have "distinct (List.map_filter marker_kind ms)"
      using Cons.prems by (cases "marker_kind m") (simp_all add: map_filter_simps)
    then show ?thesis using False Cons.IH by simp
  qed
qed

lemma find_kind_mset:
  assumes "mset ms' = mset ms" and "distinct (List.map_filter marker_kind ms)"
  shows "List.find (\<lambda>m. marker_kind m = Some k) ms' = List.find (\<lambda>m. marker_kind m = Some k) ms"
  using assms(1) distinct_kinds_filter [OF assms(2)] by (rule find_unique_mset)

lemma parse_fields:
  assumes "taskContent_of raw = Some c"
  shows "\<exists>t. parseTaskLine raw n = Some t
     \<and> dueDate t = extractMatch c DUE_DATE_REGEX
     \<and> scheduledDate t = extractMatch c SCHEDULED_DATE_REGEX
     \<and> startDate t = extractMatch c START_DATE_REGEX
     \<and> createdDate t = extractMatch c CREATED_DATE_REGEX
     \<and> doneDate t = extractMatch c DONE_DATE_REGEX
     \<and> recurrence t = stored_recurrence c
     \<and> priority t = extractPriority c"
  using assms
  by (auto simp: parseTaskLine_def taskContent_of_def Let_def stored_recurrence_def
      split: option.splits prod.splits)

lemma date_of_markers_text:
  assumes "k \<in> set DATE_GLYPHS" and "plain_text desc" and "list_all well_formed ms"
  shows "extractMatch (markers_text desc ms) (Date_re k)
     = map_option marker_value (List.find (\<lambda>m. marker_kind m = Some k) ms)"
  using extractMatch_markers_text [of "Date_re k" desc ms] assms
    date_of_sep_markers [of k ms]
  by (simp add: date_glyph_marker_glyph)

lemma recurrence_of_markers_text:
  assumes "plain_text desc" and "list_all well_formed ms"
  shows "stored_recurrence (markers_text desc ms)
     = map_option marker_value (List.find (\<lambda>m. marker_kind m = Some GLYPH_RECURRENCE) ms)"
  using extractMatch_markers_text [of RECURRENCE_REGEX desc ms] assms
    recurrence_of_sep_markers [of ms]
  by (simp add: stored_recurrence_def RECURRENCE_REGEX_def recurrence_glyph_marker_glyph)

lemma well_formed_mset:
  assumes "mset ms' = mset ms" and "list_all well_formed ms"
  shows "list_all well_formed ms'"
  using assms mset_eq_setD [OF assms(1)] by (simp add: list_all_iff)


lemma parse_dueDate:
  "map_option dueDate (parseTaskLine raw n) =
     map_option (\<lambda>c. extractMatch c DUE_DATE_REGEX) (taskContent_of raw)"
  by (simp add: parseTaskLine_def taskContent_of_def Let_def split: option.splits prod.splits)

subsection \<open>The recurrence capture between the marker and the next marker glyph\<close>

lemma stop_glyph_hd:
  assumes "list_ex (\<lambda>g. prefix g tail) RECURRENCE_STOP_GLYPHS"
  shows "tail \<noteq> []" and "hd tail \<in> set RECURRENCE_CLASS" and "\<not> is_space (hd tail)"
proof -
  obtain g where g: "g \<in> set RECURRENCE_STOP_GLYPHS" and p: "prefix g tail"
    using assms by (auto simp: list_ex_iff)
  have "g \<noteq> [] \<and> hd g \<in> set RECURRENCE_CLASS \<and> \<not> is_space (hd g)"
    using g by (auto simp: RECURRENCE_STOP_GLYPHS_def RECURRENCE_CLASS_def glyph_defs is_space_def)
  moreover obtain u us where "g = u # us" using calculation by (cases g) auto
  moreover have "prefix (u # us) tail \<Longrightarrow> tail \<noteq> [] \<and> hd tail = u" by (rule prefix_Cons_hd)
  ultimately show "tail \<noteq> []" and "hd tail \<in> set RECURRENCE_CLASS" and "\<not> is_space (hd tail)"
    using p by auto
qed

lemma trim_dropWhile: "trim (dropWhile is_space s) = trim s"
  by (simp add: trim_def)

lemma capture_between:
  assumes "list_all (\<lambda>u. u \<notin> set RECURRENCE_CLASS) mid"
    and "tail = [] \<or> list_ex (\<lambda>g. prefix g tail) RECURRENCE_STOP_GLYPHS"
  shows "takeWhile (\<lambda>u. u \<notin> set RECURRENCE_CLASS) (dropWhile is_space (mid @ tail))
     = dropWhile is_space mid"
proof -
  have t: "takeWhile (\<lambda>u. u \<notin> set RECURRENCE_CLASS) tail = []"
    using assms(2) stop_glyph_hd(1,2) [of tail] by (cases tail) auto
  have c: "\<forall>u\<in>set (dropWhile is_space mid). u \<notin> set RECURRENCE_CLASS"
    using assms(1) set_dropWhileD [of _ is_space mid] by (auto simp: list_all_iff)
  show ?thesis
  proof (cases "dropWhile is_space mid = []")
    case True
    then have a: "\<forall>u\<in>set mid. is_space u" by (simp add: dropWhile_eq_Nil_conv)
    have "dropWhile is_space tail = tail"
      using assms(2) stop_glyph_hd(1,3) [of tail] by (cases tail) auto
    then have "dropWhile is_space (mid @ tail) = tail" using a by (simp add: dropWhile_append2)
    then show ?thesis unfolding True using t by simp
  next
    case False
    then obtain x where "x \<in> set mid" and "\<not> is_space x"
      by (auto simp: dropWhile_eq_Nil_conv)
    then have "dropWhile is_space (mid @ tail) = dropWhile is_space mid @ tail"
      by (rule dropWhile_append1)
    then show ?thesis using c t by (simp add: takeWhile_append2)
  qed
qed

lemma recurrence_capture_other_emoji:
  "map_option recurrence (parseTaskLine recurrence_emoji_line 0) = Some (Some (lit ''every''))"
proof -
  have a: "taskContent_of recurrence_emoji_line
     = Some (GLYPH_RECURRENCE @ lit '' every '' @ [0xD83D, 0xDE00] @ lit '' week'')"
    by code_simp
  have b: "(case extractMatch (GLYPH_RECURRENCE @ lit '' every '' @ [0xD83D, 0xDE00] @ lit '' week'')
                  RECURRENCE_REGEX of None \<Rightarrow> None
            | Some r \<Rightarrow> if r \<noteq> [] then Some (trim r) else None) = Some (lit ''every'')"
    by code_simp
  show ?thesis unfolding parse_recurrence a using b by simp
qed

section \<open>The claims\<close>

text \<open>
  Claim C1.  On an empty task collection \<open>executeOperation\<close> returns absent for every
  operation name, so for \<open>count_all\<close>, \<open>count_done\<close>, \<open>count_open\<close> and
  \<open>percentage_done\<close> too: its first statement returns \<^verbatim>\<open>null\<close> when there is no task.
  A document without tasks and with an enabled \<open>count_all\<close> mapping passes the
  \<open>hasCountOps\<close> gate of \<^verbatim>\<open>processFile\<close> and still gets no update, where the claim
  promises the value 0.
\<close>

theorem count_operations_empty_input:
  "executeOperation [] pname opn = None
   \<and> executeOperation [] pname (lit ''count_all'') = None
   \<and> executeOperation [] pname (lit ''count_done'') = None
   \<and> executeOperation [] pname (lit ''count_open'') = None
   \<and> executeOperation [] pname (lit ''percentage_done'') = None
   \<and> parseTasks [] = []
   \<and> hasCountOps count_settings
   \<and> processFile_updates count_settings (parseTasks []) = []"
proof -
  have p: "parseTasks [] = []"
    by (simp add: parseTasks_def parseTaskLine_def match_checkbox_def)
  have h: "hasCountOps count_settings"
    by (simp add: hasCountOps_def count_settings_def count_all_mapping_def)
  have u: "processFile_updates count_settings [] = []"
    by (simp add: processFile_updates_def processOperationMapping_Nil)
  show ?thesis using p h u by (simp add: executeOperation_Nil)
qed

text \<open>
  Claim C2, as stated, fails for operators: a condition whose operator is outside the
  vocabulary evaluates to true, so the task passes the filter and the aggregation yields
  a value; the result is not absent.
\<close>

theorem unknown_operator_counterexample:
  "operator bogus_condition \<notin> set CONDITION_OPERATORS
   \<and> evaluateCondition task_open bogus_condition
   \<and> \<not> (executeOperation
          (filterTasksByConditions [task_open] [bogus_condition] (lit ''AND''))
          (lit ''status'') (lit ''count_all'') = None)
   \<and> processOperationMapping count_all_bogus_mapping [task_open]
       = [\<lparr> key = lit ''total'', update_value = lit ''1'', update_overwriteExisting = True \<rparr>]"
proof -
  have a: "operator bogus_condition \<notin> set CONDITION_OPERATORS
     \<and> evaluateCondition task_open bogus_condition
     \<and> \<not> (executeOperation
          (filterTasksByConditions [task_open] [bogus_condition] (lit ''AND''))
          (lit ''status'') (lit ''count_all'') = None)"
    by (simp add: bogus_condition_def CONDITION_OPERATORS_def evaluateCondition_def
        filterTasksByConditions_def executeOperation_def lit_def)
  have b: "processOperationMapping count_all_bogus_mapping [task_open]
       = [\<lparr> key = lit ''total'', update_value = lit ''1'', update_overwriteExisting = True \<rparr>]"
    by code_simp
  show ?thesis using a b by (intro conjI) simp_all
qed

text \<open>
  Claim C2, amended.  A property name outside the vocabulary makes the accessor return
  absent; an operation name outside the vocabulary makes the aggregation return absent on
  every task collection; an operator name outside the vocabulary makes the condition hold
  for every task, so that filtering by it keeps every task.  None of the three functions
  has a failing branch.
\<close>

theorem unknown_names:
  "(pname \<notin> set TASK_PROPERTIES \<longrightarrow> getTaskPropertyValue task pname = None)
   \<and> (opn \<notin> set OPERATION_TYPES \<longrightarrow> executeOperation tasks p opn = None)
   \<and> (operator c \<notin> set CONDITION_OPERATORS \<longrightarrow>
        evaluateCondition task c \<and> filterTasksByConditions tasks [c] logic = tasks)"
proof (intro conjI impI)
  assume "pname \<notin> set TASK_PROPERTIES"
  then show "getTaskPropertyValue task pname = None"
    by (simp add: TASK_PROPERTIES_def getTaskPropertyValue_def)
next
  assume "opn \<notin> set OPERATION_TYPES"
  then show "executeOperation tasks p opn = None"
    by (simp add: OPERATION_TYPES_def executeOperation_def)
next
  assume a: "operator c \<notin> set CONDITION_OPERATORS"
  then show e: "evaluateCondition task c" for task
    by (simp add: CONDITION_OPERATORS_def evaluateCondition_def)
  then show "filterTasksByConditions tasks [c] logic = tasks"
    by (simp add: filterTasksByConditions_def)
qed

theorem unknown_names_witness:
  "lit ''owner'' \<notin> set TASK_PROPERTIES
   \<and> getTaskPropertyValue task_done (lit ''owner'') = None
   \<and> lit ''median'' \<notin> set OPERATION_TYPES
   \<and> executeOperation [task_open, task_done] (lit ''status'') (lit ''median'') = None
   \<and> operator bogus_condition \<notin> set CONDITION_OPERATORS
   \<and> evaluateCondition task_done bogus_condition
   \<and> filterTasksByConditions [task_open, task_done] [bogus_condition] (lit ''OR'')
       = [task_open, task_done]"
proof -
  have a: "lit ''owner'' \<notin> set TASK_PROPERTIES"
    by (simp add: TASK_PROPERTIES_def lit_def)
  have b: "lit ''median'' \<notin> set OPERATION_TYPES"
    by (simp add: OPERATION_TYPES_def lit_def)
  have c: "operator bogus_condition \<notin> set CONDITION_OPERATORS"
    by (simp add: CONDITION_OPERATORS_def bogus_condition_def lit_def)
  show ?thesis
    using a b c
      unknown_names [where pname = "lit ''owner''" and task = task_done and opn = "lit ''median''"
        and tasks = "[task_open, task_done]" and p = "lit ''status''" and c = bogus_condition
        and logic = "lit ''OR''"]
    by blast
qed

text \<open>
  Claim C3, as stated, fails: the capture does not run to the next recognized marker
  glyph.  It ends at the first code unit of the class written in \<^verbatim>\<open>RECURRENCE_REGEX\<close>,
  which contains \<open>GLYPH_ID\<close>, a glyph that is no marker of this program.  On the line
  below the stored recurrence is \<open>every week\<close>, while the text up to the next recognized
  marker or the end of content is \<open>every week\<close>, \<open>GLYPH_ID\<close>, \<open>abc\<close>.
\<close>

theorem recurrence_capture_counterexample:
  "taskContent_of recurrence_id_line
     = Some (GLYPH_RECURRENCE @ lit '' every week '' @ GLYPH_ID @ lit '' abc'')
   \<and> map_option recurrence (parseTaskLine recurrence_id_line 0) = Some (Some (lit ''every week''))
   \<and> spec_recurrence (GLYPH_RECURRENCE @ lit '' every week '' @ GLYPH_ID @ lit '' abc'')
       = Some (lit ''every week '' @ GLYPH_ID @ lit '' abc'')
   \<and> lit ''every week '' @ GLYPH_ID @ lit '' abc'' \<noteq> lit ''every week''"
proof -
  have a: "taskContent_of recurrence_id_line
     = Some (GLYPH_RECURRENCE @ lit '' every week '' @ GLYPH_ID @ lit '' abc'')"
    by code_simp
  have b: "(case extractMatch (GLYPH_RECURRENCE @ lit '' every week '' @ GLYPH_ID @ lit '' abc'')
                  RECURRENCE_REGEX of None \<Rightarrow> None
            | Some r \<Rightarrow> if r \<noteq> [] then Some (trim r) else None) = Some (lit ''every week'')"
    by code_simp
  have c: "spec_recurrence (GLYPH_RECURRENCE @ lit '' every week '' @ GLYPH_ID @ lit '' abc'')
       = Some (lit ''every week '' @ GLYPH_ID @ lit '' abc'')"
    by code_simp
  have d: "lit ''every week '' @ GLYPH_ID @ lit '' abc'' \<noteq> lit ''every week''"
    by code_simp
  have e: "map_option recurrence (parseTaskLine recurrence_id_line 0) = Some (Some (lit ''every week''))"
    unfolding parse_recurrence a using b by simp
  show ?thesis using a c d e by (intro conjI)
qed

text \<open>
  Claim C3, amended.  Let the task content be \<open>pre\<close>, the recurrence marker, \<open>mid\<close>,
  \<open>tail\<close>, where the marker does not occur in \<open>pre\<close>, \<open>tail\<close> is empty or starts with a
  recognized marker glyph (a date glyph, a priority glyph, the recurrence glyph) or with
  \<open>GLYPH_ID\<close>, and \<open>mid\<close> has no code unit of the class of \<^verbatim>\<open>RECURRENCE_REGEX\<close>:
  \<open>mid\<close> is all text from the marker to the next recognized marker glyph, to the next
  \<open>GLYPH_ID\<close> or to the end of content.  Then the stored recurrence is \<open>mid\<close> trimmed,
  and it is absent when \<open>mid\<close> is empty after trimming, also when \<open>mid\<close> is white space
  only.
\<close>

theorem recurrence_field:
  assumes "taskContent_of raw = Some (pre @ GLYPH_RECURRENCE @ mid @ tail)"
    and "\<not> sublist GLYPH_RECURRENCE pre"
    and "list_all (\<lambda>u. u \<notin> set RECURRENCE_CLASS) mid"
    and "tail = [] \<or> list_ex (\<lambda>g. prefix g tail) RECURRENCE_STOP_GLYPHS"
  shows "map_option recurrence (parseTaskLine raw n) =
     Some (if trim mid = [] then None else Some (trim mid))"
proof -
  let ?cap = "dropWhile is_space mid"
  have "extractMatch (pre @ GLYPH_RECURRENCE @ mid @ tail) RECURRENCE_REGEX = Some ?cap"
    using exec_recurrence [OF assms(2), of "mid @ tail"] capture_between [OF assms(3,4)]
    by simp
  moreover have "(?cap = []) = (trim mid = [])"
    by (simp add: trim_eq_Nil_iff dropWhile_eq_Nil_conv)
  ultimately show ?thesis
    using assms(1) by (simp add: parse_recurrence trim_dropWhile)
qed

theorem recurrence_field_witness:
  "taskContent_of recurrence_due_line
     = Some ([] @ GLYPH_RECURRENCE @ lit '' every week '' @ (GLYPH_DUE @ lit '' 2025-05-01''))
   \<and> taskContent_of recurrence_blank_line
     = Some ([] @ GLYPH_RECURRENCE @ lit ''   '' @ (GLYPH_DUE @ lit '' 2025-05-01''))
   \<and> taskContent_of recurrence_highest_line
     = Some ([] @ GLYPH_RECURRENCE @ lit '' every week '' @ GLYPH_HIGHEST)
   \<and> \<not> sublist GLYPH_RECURRENCE []
   \<and> list_all (\<lambda>u. u \<notin> set RECURRENCE_CLASS) (lit '' every week '')
   \<and> list_all (\<lambda>u. u \<notin> set RECURRENCE_CLASS) (lit ''   '')
   \<and> list_ex (\<lambda>g. prefix g (GLYPH_DUE @ lit '' 2025-05-01'')) RECURRENCE_STOP_GLYPHS
   \<and> list_ex (\<lambda>g. prefix g GLYPH_HIGHEST) RECURRENCE_STOP_GLYPHS
   \<and> map_option recurrence (parseTaskLine recurrence_due_line 0) = Some (Some (lit ''every week''))
   \<and> map_option recurrence (parseTaskLine recurrence_blank_line 0) = Some None
   \<and> map_option recurrence (parseTaskLine recurrence_highest_line 0)
       = Some (Some (lit ''every week''))"
proof -
  have a: "taskContent_of recurrence_due_line
     = Some ([] @ GLYPH_RECURRENCE @ lit '' every week '' @ (GLYPH_DUE @ lit '' 2025-05-01''))"
    by code_simp
  have a': "taskContent_of recurrence_blank_line
     = Some ([] @ GLYPH_RECURRENCE @ lit ''   '' @ (GLYPH_DUE @ lit '' 2025-05-01''))"
    by code_simp
  have a'': "taskContent_of recurrence_highest_line
     = Some ([] @ GLYPH_RECURRENCE @ lit '' every week '' @ GLYPH_HIGHEST)"
    by code_simp
  have b: "\<not> sublist GLYPH_RECURRENCE []" by code_simp
  have c: "list_all (\<lambda>u. u \<notin> set RECURRENCE_CLASS) (lit '' every week '')" by code_simp
  have c': "list_all (\<lambda>u. u \<notin> set RECURRENCE_CLASS) (lit ''   '')" by code_simp
  have d: "list_ex (\<lambda>g. prefix g (GLYPH_DUE @ lit '' 2025-05-01'')) RECURRENCE_STOP_GLYPHS"
    by code_simp
  have d'': "list_ex (\<lambda>g. prefix g GLYPH_HIGHEST) RECURRENCE_STOP_GLYPHS"
    by code_simp
  have e: "(if trim (lit '' every week '') = [] then None else Some (trim (lit '' every week '')))
      = Some (lit ''every week'')" by code_simp
  have e': "(if trim (lit ''   '') = [] then None else Some (trim (lit ''   ''))) = None"
    by code_simp
  have f: "map_option recurrence (parseTaskLine recurrence_due_line 0) = Some (Some (lit ''every week''))"
    using recurrence_field [OF a b c disjI2 [OF d], of 0] by (simp only: e)
  have f': "map_option recurrence (parseTaskLine recurrence_blank_line 0) = Some None"
    using recurrence_field [OF a' b c' disjI2 [OF d], of 0] by (simp only: e')
  have f'': "map_option recurrence (parseTaskLine recurrence_highest_line 0)
       = Some (Some (lit ''every week''))"
    using recurrence_field [OF a'' b c disjI2 [OF d''], of 0] by (simp only: e)
  show ?thesis using a a' a'' b c c' d d'' f f' f'' by (intro conjI)
qed

text \<open>
  Claim C4.  \<^verbatim>\<open>extractDescription\<close> removes the first match of each marker pattern
  only: its \<^verbatim>\<open>replace\<close> calls use the patterns without the \<^verbatim>\<open>g\<close> flag, unlike the
  call that collapses white space.  On a line with two due-date markers the second marker
  stays in the description, where the claim (every occurrence removed) gives \<open>pay rent\<close>.
\<close>

theorem description_two_due_markers:
  "taskContent_of two_due_line
      = Some (lit ''pay '' @ GLYPH_DUE @ lit '' 2025-01-01 rent '' @ GLYPH_DUE @ lit '' 2025-02-02'')
   \<and> map_option description (parseTaskLine two_due_line 0)
      = Some (lit ''pay rent '' @ GLYPH_DUE @ lit '' 2025-02-02'')
   \<and> spec_description
        (lit ''pay '' @ GLYPH_DUE @ lit '' 2025-01-01 rent '' @ GLYPH_DUE @ lit '' 2025-02-02'')
      = lit ''pay rent''
   \<and> lit ''pay rent '' @ GLYPH_DUE @ lit '' 2025-02-02'' \<noteq> lit ''pay rent''"
proof -
  have a: "taskContent_of two_due_line
      = Some (lit ''pay '' @ GLYPH_DUE @ lit '' 2025-01-01 rent '' @ GLYPH_DUE @ lit '' 2025-02-02'')"
    by code_simp
  have b: "extractDescription
        (lit ''pay '' @ GLYPH_DUE @ lit '' 2025-01-01 rent '' @ GLYPH_DUE @ lit '' 2025-02-02'')
      = lit ''pay rent '' @ GLYPH_DUE @ lit '' 2025-02-02''"
    by code_simp
  have c: "spec_description
        (lit ''pay '' @ GLYPH_DUE @ lit '' 2025-01-01 rent '' @ GLYPH_DUE @ lit '' 2025-02-02'')
      = lit ''pay rent''"
    by code_simp
  have d: "lit ''pay rent '' @ GLYPH_DUE @ lit '' 2025-02-02'' \<noteq> lit ''pay rent''"
    by code_simp
  have e: "map_option description (parseTaskLine two_due_line 0)
      = Some (lit ''pay rent '' @ GLYPH_DUE @ lit '' 2025-02-02'')"
    unfolding parse_description a using b by simp
  show ?thesis using a c d e by (intro conjI)
qed

text \<open>
  Claim C5.  A \<open>not_equals\<close> condition holds exactly when the value of the named
  property is absent or differs from the literal; an \<open>equals\<close> condition holds exactly
  when the value is present and equal to the literal.
\<close>

theorem not_equals_semantics:
  "(evaluateCondition t \<lparr>cond_id = i, property = p, operator = lit ''not_equals'',
        cond_value = v\<rparr>
     \<longleftrightarrow> (getTaskPropertyValue t p = None
          \<or> (\<exists>s. getTaskPropertyValue t p = Some s \<and> s \<noteq> v)))
   \<and> (evaluateCondition t \<lparr>cond_id = i, property = p, operator = lit ''equals'',
        cond_value = v\<rparr>
     \<longleftrightarrow> getTaskPropertyValue t p = Some v)"
  by (cases "getTaskPropertyValue t p"; simp add: evaluateCondition_def lit_def)

theorem not_equals_semantics_witness:
  "getTaskPropertyValue task_open (lit ''due_date'') = None
   \<and> evaluateCondition task_open \<lparr>cond_id = [], property = lit ''due_date'',
        operator = lit ''not_equals'', cond_value = lit ''2025-01-01''\<rparr>
   \<and> \<not> evaluateCondition task_open \<lparr>cond_id = [], property = lit ''due_date'',
        operator = lit ''equals'', cond_value = lit ''2025-01-01''\<rparr>"
proof -
  have a: "getTaskPropertyValue task_open (lit ''due_date'') = None"
    by (simp add: getTaskPropertyValue_def task_open_def)
  show ?thesis
    using a not_equals_semantics [of task_open "[]" "lit ''due_date''" "lit ''2025-01-01''"]
    by simp
qed

text \<open>
  Claim C6.  A direct mapping yields at most one update: none when no task has a present,
  non-empty value of the source property, and otherwise one update carrying the value of
  the first such task in order.  \<^verbatim>\<open>processFile\<close> applies this to a mapping exactly when
  the mapping is enabled.
\<close>

theorem direct_mapping_first_match:
  "length (processDirectMapping m tasks) \<le> 1
   \<and> processDirectMapping m tasks =
       (case List.find (\<lambda>t. \<exists>v. getTaskPropertyValue t (taskProperty m) = Some v \<and> v \<noteq> [])
               tasks of
          None \<Rightarrow> []
        | Some t \<Rightarrow>
            [\<lparr> key = frontmatterKey m,
               update_value = the (getTaskPropertyValue t (taskProperty m)),
               update_overwriteExisting = overwriteExisting m \<rparr>])
   \<and> processFile_updates \<lparr> directMappings = [m], operationMappings = [],
         excludedFolders = ex, processOnModify = pm, debounceDelay = dd \<rparr> tasks
       = (if enabled m then processDirectMapping m tasks else [])"
proof -
  have "processFile_updates \<lparr> directMappings = [m], operationMappings = [],
         excludedFolders = ex, processOnModify = pm, debounceDelay = dd \<rparr> tasks
       = (if enabled m then processDirectMapping m tasks else [])"
    by (cases tasks) (simp_all add: processFile_updates_def hasCountOps_def)
  then show ?thesis
    using processDirectMapping_find [of m tasks] processDirectMapping_length [of m tasks]
    by simp
qed

theorem direct_mapping_first_match_witness:
  "map priority [task_open, task_high, task_low] = [None, Some (lit ''high''), Some (lit ''low'')]
   \<and> enabled priority_mapping
   \<and> processFile_updates \<lparr> directMappings = [priority_mapping], operationMappings = [],
         excludedFolders = [], processOnModify = True, debounceDelay = 1000 \<rparr>
       [task_open, task_high, task_low]
     = [\<lparr> key = lit ''prio'', update_value = lit ''high'',
          update_overwriteExisting = False \<rparr>]"
proof -
  have a: "map priority [task_open, task_high, task_low]
      = [None, Some (lit ''high''), Some (lit ''low'')]"
    by (simp add: task_open_def task_high_def task_low_def)
  have b: "enabled priority_mapping" by (simp add: priority_mapping_def)
  have c: "processDirectMapping priority_mapping [task_open, task_high, task_low]
     = [\<lparr> key = lit ''prio'', update_value = lit ''high'',
          update_overwriteExisting = False \<rparr>]"
    by code_simp
  note d = direct_mapping_first_match [of priority_mapping "[task_open, task_high, task_low]"
        "[]" True 1000, THEN conjunct2, THEN conjunct2]
  have e: "processFile_updates \<lparr> directMappings = [priority_mapping], operationMappings = [],
         excludedFolders = [], processOnModify = True, debounceDelay = 1000 \<rparr>
       [task_open, task_high, task_low]
     = [\<lparr> key = lit ''prio'', update_value = lit ''high'',
          update_overwriteExisting = False \<rparr>]"
    using b c d by (simp only: if_True)
  show ?thesis
    using a b e by (intro conjI)
qed

text \<open>
  Claim C7.  The priority of a task line is found by existence checks on the task content
  (the text after the checkbox, trimmed) in the fixed order highest, high, medium, low,
  lowest: the first glyph of this order that occurs anywhere in the content gives the
  priority, wherever the glyphs stand in the text.
\<close>

theorem priority_fixed_order:
  "map_option priority (parseTaskLine raw n) =
     map_option (\<lambda>c.
         if sublist GLYPH_HIGHEST c then Some (lit ''highest'')
         else if sublist GLYPH_HIGH c then Some (lit ''high'')
         else if sublist GLYPH_MEDIUM c then Some (lit ''medium'')
         else if sublist GLYPH_LOW c then Some (lit ''low'')
         else if sublist GLYPH_LOWEST c then Some (lit ''lowest'')
         else None) (taskContent_of raw)"
  unfolding parse_priority
  by (rule map_option_cong [OF refl]) (rule extractPriority_sublist)

theorem priority_fixed_order_witness:
  "taskContent_of priority_line
      = Some (GLYPH_LOW @ lit '' pay '' @ GLYPH_HIGH @ lit '' rent '' @ GLYPH_HIGHEST)
   \<and> map_option priority (parseTaskLine priority_line 0) = Some (Some (lit ''highest''))"
proof -
  have a: "taskContent_of priority_line
      = Some (GLYPH_LOW @ lit '' pay '' @ GLYPH_HIGH @ lit '' rent '' @ GLYPH_HIGHEST)"
    by code_simp
  have b: "sublist GLYPH_HIGHEST
      (GLYPH_LOW @ lit '' pay '' @ GLYPH_HIGH @ lit '' rent '' @ GLYPH_HIGHEST)"
    by code_simp
  show ?thesis
    using a b priority_fixed_order [of priority_line 0] by simp
qed

text \<open>
  Claim C8, as stated, fails on a line with two markers of the same kind: each date field
  and the recurrence are taken from the first match of their pattern, so exchanging two
  due-date markers exchanges the extracted due date.
\<close>

theorem duplicate_marker_counterexample:
  "mset [due_feb, due_jan] = mset [due_jan, due_feb]
   \<and> list_all well_formed [due_jan, due_feb]
   \<and> taskContent_of (marker_line [] [due_jan, due_feb]) = Some (markers_text [] [due_jan, due_feb])
   \<and> taskContent_of (marker_line [] [due_feb, due_jan]) = Some (markers_text [] [due_feb, due_jan])
   \<and> map_option dueDate (parseTaskLine (marker_line [] [due_jan, due_feb]) 0)
       = Some (Some (lit ''2025-01-01''))
   \<and> map_option dueDate (parseTaskLine (marker_line [] [due_feb, due_jan]) 0)
       = Some (Some (lit ''2025-02-02''))
   \<and> lit ''2025-01-01'' \<noteq> lit ''2025-02-02''"
proof -
  have a: "mset [due_feb, due_jan] = mset [due_jan, due_feb]"
    by (simp add: add_mset_commute)
  have b: "list_all well_formed [due_jan, due_feb]" by code_simp
  have c: "taskContent_of (marker_line [] [due_jan, due_feb])
      = Some (markers_text [] [due_jan, due_feb])" by code_simp
  have d: "taskContent_of (marker_line [] [due_feb, due_jan])
      = Some (markers_text [] [due_feb, due_jan])" by code_simp
  have e: "extractMatch (markers_text [] [due_jan, due_feb]) DUE_DATE_REGEX
      = Some (lit ''2025-01-01'')" by code_simp
  have f: "extractMatch (markers_text [] [due_feb, due_jan]) DUE_DATE_REGEX
      = Some (lit ''2025-02-02'')" by code_simp
  have g: "lit ''2025-01-01'' \<noteq> lit ''2025-02-02''" by code_simp
  have h: "map_option dueDate (parseTaskLine (marker_line [] [due_jan, due_feb]) 0)
       = Some (Some (lit ''2025-01-01''))"
    unfolding parse_dueDate c using e by simp
  have i: "map_option dueDate (parseTaskLine (marker_line [] [due_feb, due_jan]) 0)
       = Some (Some (lit ''2025-02-02''))"
    unfolding parse_dueDate d using f by simp
  show ?thesis using a b c d g h i by (intro conjI)
qed

text \<open>
  Claim C8, amended.  Let the task content of a line be a description without marker
  glyphs followed by well-formed markers, all separated by single spaces, with at most one
  marker of each date kind and at most one recurrence marker (priority glyphs may repeat).
  Then a line whose content has the same description and the same markers in another order
  has the same five date fields, the same recurrence and the same priority.
\<close>

theorem marker_order_independent:
  assumes "mset ms' = mset ms"
    and "list_all well_formed ms"
    and "distinct (List.map_filter marker_kind ms)"
    and "plain_text desc"
    and "taskContent_of raw = Some (markers_text desc ms)"
    and "taskContent_of raw' = Some (markers_text desc ms')"
  shows "\<exists>t t'. parseTaskLine raw n = Some t \<and> parseTaskLine raw' n' = Some t'
     \<and> dueDate t' = dueDate t \<and> scheduledDate t' = scheduledDate t
     \<and> startDate t' = startDate t \<and> createdDate t' = createdDate t
     \<and> doneDate t' = doneDate t \<and> recurrence t' = recurrence t \<and> priority t' = priority t"
proof -
  have wf': "list_all well_formed ms'" using assms(1,2) by (rule well_formed_mset)
  have d: "extractMatch (markers_text desc ms') (Date_re k)
      = extractMatch (markers_text desc ms) (Date_re k)" if "k \<in> set DATE_GLYPHS" for k
    using that assms(2,4) wf' find_kind_mset [OF assms(1,3), of k]
    by (simp add: date_of_markers_text)
  have r: "stored_recurrence (markers_text desc ms') = stored_recurrence (markers_text desc ms)"
    using assms(2,4) wf' find_kind_mset [OF assms(1,3), of GLYPH_RECURRENCE]
    by (simp add: recurrence_of_markers_text)
  have "set ms' = set ms" using assms(1) by (rule mset_eq_setD)
  then have p: "extractPriority (markers_text desc ms') = extractPriority (markers_text desc ms)"
    using assms(2,4) wf' by (simp add: extractPriority_markers_text)
  obtain t where t: "parseTaskLine raw n = Some t"
      "dueDate t = extractMatch (markers_text desc ms) DUE_DATE_REGEX"
      "scheduledDate t = extractMatch (markers_text desc ms) SCHEDULED_DATE_REGEX"
      "startDate t = extractMatch (markers_text desc ms) START_DATE_REGEX"
      "createdDate t = extractMatch (markers_text desc ms) CREATED_DATE_REGEX"
      "doneDate t = extractMatch (markers_text desc ms) DONE_DATE_REGEX"
      "recurrence t = stored_recurrence (markers_text desc ms)"
      "priority t = extractPriority (markers_text desc ms)"
    using parse_fields [OF assms(5), of n] by blast
  obtain t' where t': "parseTaskLine raw' n' = Some t'"
      "dueDate t' = extractMatch (markers_text desc ms') DUE_DATE_REGEX"
      "scheduledDate t' = extractMatch (markers_text desc ms') SCHEDULED_DATE_REGEX"
      "startDate t' = extractMatch (markers_text desc ms') START_DATE_REGEX"
      "createdDate t' = extractMatch (markers_text desc ms') CREATED_DATE_REGEX"
      "doneDate t' = extractMatch (markers_text desc ms') DONE_DATE_REGEX"
      "recurrence t' = stored_recurrence (markers_text desc ms')"
      "priority t' = extractPriority (markers_text desc ms')"
    using parse_fields [OF assms(6), of n'] by blast
  have "dueDate t' = dueDate t"
    using t(2) t'(2) d [of GLYPH_DUE] by (simp add: DUE_DATE_REGEX_def DATE_GLYPHS_def)
  moreover have "scheduledDate t' = scheduledDate t"
    using t(3) t'(3) d [of GLYPH_SCHEDULED] by (simp add: SCHEDULED_DATE_REGEX_def DATE_GLYPHS_def)
  moreover have "startDate t' = startDate t"
    using t(4) t'(4) d [of GLYPH_START] by (simp add: START_DATE_REGEX_def DATE_GLYPHS_def)
  moreover have "createdDate t' = createdDate t"
    using t(5) t'(5) d [of GLYPH_CREATED] by (simp add: CREATED_DATE_REGEX_def DATE_GLYPHS_def)
  moreover have "doneDate t' = doneDate t"
    using t(6) t'(6) d [of GLYPH_DONE] by (simp add: DONE_DATE_REGEX_def DATE_GLYPHS_def)
  moreover have "recurrence t' = recurrence t" using t(7) t'(7) r by simp
  moreover have "priority t' = priority t" using t(8) t'(8) p by simp
  ultimately show ?thesis using t(1) t'(1) by blast
qed

theorem marker_order_independent_witness:
  "mset [high, due_jan, every_week] = mset [every_week, due_jan, high]
   \<and> list_all well_formed [every_week, due_jan, high]
   \<and> distinct (List.map_filter marker_kind [every_week, due_jan, high])
   \<and> plain_text (lit ''buy milk'')
   \<and> taskContent_of (marker_line (lit ''buy milk'') [every_week, due_jan, high])
       = Some (markers_text (lit ''buy milk'') [every_week, due_jan, high])
   \<and> taskContent_of (marker_line (lit ''buy milk'') [high, due_jan, every_week])
       = Some (markers_text (lit ''buy milk'') [high, due_jan, every_week])
   \<and> (\<exists>t t'. parseTaskLine (marker_line (lit ''buy milk'') [every_week, due_jan, high]) 0 = Some t
        \<and> parseTaskLine (marker_line (lit ''buy milk'') [high, due_jan, every_week]) 1 = Some t'
        \<and> dueDate t' = dueDate t \<and> scheduledDate t' = scheduledDate t
        \<and> startDate t' = startDate t \<and> createdDate t' = createdDate t
        \<and> doneDate t' = doneDate t \<and> recurrence t' = recurrence t \<and> priority t' = priority t)"
proof -
  have a: "mset [high, due_jan, every_week] = mset [every_week, due_jan, high]"
    by (simp add: add_mset_commute)
  have b: "list_all well_formed [every_week, due_jan, high]" by code_simp
  have c: "distinct (List.map_filter marker_kind [every_week, due_jan, high])" by code_simp
  have d: "plain_text (lit ''buy milk'')" by code_simp
  have e: "taskContent_of (marker_line (lit ''buy milk'') [every_week, due_jan, high])
       = Some (markers_text (lit ''buy milk'') [every_week, due_jan, high])" by code_simp
  have f: "taskContent_of (marker_line (lit ''buy milk'') [high, due_jan, every_week])
       = Some (markers_text (lit ''buy milk'') [high, due_jan, every_week])" by code_simp
  show ?thesis
    using a b c d e f marker_order_independent [OF a b c d e f, of 0 1] by (intro conjI)
qed

text \<open>
  Claim C9.  Filtering with an empty condition sequence returns the task sequence
  unchanged, whatever the combination mode.
\<close>

theorem filter_empty_conditions_identity:
  "filterTasksByConditions tasks [] logic = tasks"
  by (simp add: filterTasksByConditions_def)

theorem filter_empty_conditions_identity_witness:
  "filterTasksByConditions [task_done, task_open] [] (lit ''OR'') = [task_done, task_open]
   \<and> filterTasksByConditions [task_done, task_open] [] (lit ''AND'') = [task_done, task_open]"
  using filter_empty_conditions_identity [of "[task_done, task_open]" "lit ''OR''"]
    filter_empty_conditions_identity [of "[task_done, task_open]" "lit ''AND''"]
  by simp

text \<open>
  Claim C10.  On a non-empty task list the results of \<open>count_done\<close>, \<open>count_open\<close> and
  \<open>count_all\<close> are decimal numerals, and the first two add up to the third.
\<close>

theorem count_done_plus_count_open:
  assumes "tasks \<noteq> []"
  shows "\<exists>sd sp sa nd np na.
      executeOperation tasks pname (lit ''count_done'') = Some sd
    \<and> executeOperation tasks pname (lit ''count_open'') = Some sp
    \<and> executeOperation tasks pname (lit ''count_all'') = Some sa
    \<and> Number_str sd = Some nd \<and> Number_str sp = Some np \<and> Number_str sa = Some na
    \<and> nd + np = na"
proof -
  let ?d = "length (filter (\<lambda>t. isDone t) tasks)"
  let ?p = "length (filter (\<lambda>t. \<not> isDone t) tasks)"
  have "?d + ?p = length tasks"
    by (rule sum_length_filter_compl)
  moreover have "executeOperation tasks pname (lit ''count_done'') = Some (String_nat ?d)"
    using assms by (simp add: executeOperation_def lit_def)
  moreover have "executeOperation tasks pname (lit ''count_open'') = Some (String_nat ?p)"
    using assms by (simp add: executeOperation_def lit_def)
  moreover have "executeOperation tasks pname (lit ''count_all'') = Some (String_nat (length tasks))"
    using assms by (simp add: executeOperation_def lit_def)
  ultimately show ?thesis
    using Number_str_String_nat by blast
qed

theorem count_done_plus_count_open_witness:
  "[task_done, task_open, task_done] \<noteq> []
   \<and> executeOperation [task_done, task_open, task_done] (lit ''status'') (lit ''count_done'')
       = Some (lit ''2'')
   \<and> executeOperation [task_done, task_open, task_done] (lit ''status'') (lit ''count_open'')
       = Some (lit ''1'')
   \<and> executeOperation [task_done, task_open, task_done] (lit ''status'') (lit ''count_all'')
       = Some (lit ''3'')
   \<and> (\<exists>nd np na. Number_str (lit ''2'') = Some nd \<and> Number_str (lit ''1'') = Some np
        \<and> Number_str (lit ''3'') = Some na \<and> nd + np = na)"
proof -
  have n: "[task_done, task_open, task_done] \<noteq> []" by simp
  have a: "executeOperation [task_done, task_open, task_done] (lit ''status'') (lit ''count_done'')
       = Some (lit ''2'')" by code_simp
  have b: "executeOperation [task_done, task_open, task_done] (lit ''status'') (lit ''count_open'')
       = Some (lit ''1'')" by code_simp
  have c: "executeOperation [task_done, task_open, task_done] (lit ''status'') (lit ''count_all'')
       = Some (lit ''3'')" by code_simp
  show ?thesis
    using count_done_plus_count_open [OF n, of "lit ''status''"] a b c by auto
qed

end
